theory Spec2Isabelle
  imports Complex_Main "HOL-Library.Word"
begin

section \<open>The HRTF converter \<open>scripts/dat-converter.py\<close>\<close>

text \<open>
  The script walks the folders \<open>elev-40\<close>, ..., \<open>elev90\<close>, decodes every regular file
  as big-endian 16-bit PCM, and for every file whose name starts with \<open>L\<close> appends two
  entries (the file's own window and the window of the file named with \<open>R\<close> in place of
  the first \<open>L\<close>) to the list \<open>data_arrays\<close>. After the walk, \<open>save_data_to_file\<close>
  writes the list to \<open>hrtf_128.bin\<close>.

  Python integers are \<open>int\<close>, bytes are \<open>8 word\<close>, file names are \<open>string\<close> (ASCII
  characters), exceptions are values of the type \<open>error\<close>, and a float32 is the
  rational number it stands for.
\<close>

subsection \<open>Exceptions\<close>

datatype error =
    FileNotFoundError
  | NotADirectoryError
  | IsADirectoryError
  | IndexError
  | ValueError
  | StructError
  | OverflowError

subsection \<open>IEEE-754 rounding\<close>

text \<open>\<open>int.bit_length\<close>: the number of binary digits of a natural number.\<close>

fun bit_length :: "nat \<Rightarrow> nat" where
  "bit_length n = (if n = 0 then 0 else Suc (bit_length (n div 2)))"

declare bit_length.simps [simp del]

definition pow2 :: "int \<Rightarrow> rat" where
  "pow2 e = (if 0 \<le> e then 2 ^ nat e else 1 / 2 ^ nat (- e))"

text \<open>The binary exponent of a positive rational: \<open>pow2 (ilog2 q) \<le> q < pow2 (ilog2 q + 1)\<close>.\<close>

definition ilog2 :: "rat \<Rightarrow> int" where
  "ilog2 q = (if 1 \<le> q then int (bit_length (nat \<lfloor>q\<rfloor>)) - 1
              else - int (bit_length (nat (\<lceil>1 / q\<rceil> - 1))))"

definition round_half_even :: "rat \<Rightarrow> int" where
  "round_half_even r =
     (let f = \<lfloor>r\<rfloor>; d = r - of_int f
      in if d < 1 / 2 then f
         else if 1 / 2 < d then f + 1
         else if even f then f else f + 1)"

text \<open>
  Round to nearest, ties to even, in a binary format of precision \<open>p\<close> bits whose
  smallest normal exponent is \<open>emin\<close> (below it the spacing stays that of \<open>emin\<close>:
  subnormal numbers). The exponent is not bounded above here: overflow is tested
  by the caller.
\<close>

definition fl_round :: "nat \<Rightarrow> int \<Rightarrow> rat \<Rightarrow> rat" where
  "fl_round p emin q =
     (if q = 0 then 0
      else let e = max (ilog2 \<bar>q\<bar>) emin;
               u = pow2 (e - int p + 1)
           in sgn q * of_int (round_half_even (\<bar>q\<bar> / u)) * u)"

definition f32_round :: "rat \<Rightarrow> rat" where
  "f32_round q = fl_round 24 (- 126) q"

definition f64_round :: "rat \<Rightarrow> rat" where
  "f64_round q = fl_round 53 (- 1022) q"

subsection \<open>\<open>convert_int_to_float\<close>\<close>

text \<open>
  \<^verbatim>\<open>float_data = np.array(data, dtype=np.float32)\<close> converts every integer to a double
  and the double to float32 (two roundings, which differ from one only beyond
  \<open>2\<^sup>5\<^sup>3\<close>); \<^verbatim>\<open>float_data /= np.iinfo(np.int16).max\<close> divides every element by 32767
  in float32 arithmetic, which rounds the exact quotient. Integers beyond the range of
  float32, which numpy turns into an infinity or rejects, are outside this model: the
  script converts decoded samples only, which are 16-bit.
\<close>

definition int16_max :: int where
  "int16_max = 32767"

definition np_float32 :: "int \<Rightarrow> rat" where
  "np_float32 x = f32_round (f64_round (of_int x))"

definition f32_div :: "rat \<Rightarrow> rat \<Rightarrow> rat" where
  "f32_div a b = f32_round (a / b)"

definition convert_int_to_float :: "int list \<Rightarrow> rat list" where
  "convert_int_to_float data = map (\<lambda>x. f32_div (np_float32 x) (np_float32 int16_max)) data"

subsection \<open>The file system the script reads\<close>

text \<open>
  A path names a regular file with its bytes, a directory with the names
  \<open>os.listdir\<close> returns for it (in that order), or nothing. The file system does not
  change while the script runs.
\<close>

type_synonym byte = "8 word"

datatype node = File "byte list" | Dir "string list"

type_synonym filesystem = "string \<Rightarrow> node option"

definition listdir :: "filesystem \<Rightarrow> string \<Rightarrow> error + string list" where
  "listdir fs path =
     (case fs path of
        None \<Rightarrow> Inl FileNotFoundError
      | Some (File raw) \<Rightarrow> Inl NotADirectoryError
      | Some (Dir names) \<Rightarrow> Inr names)"

definition isfile :: "filesystem \<Rightarrow> string \<Rightarrow> bool" where
  "isfile fs path = (case fs path of Some (File raw) \<Rightarrow> True | _ \<Rightarrow> False)"

text \<open>\<^verbatim>\<open>with open(file_path, "rb") as file: raw_data = file.read()\<close>\<close>

definition open_rb :: "filesystem \<Rightarrow> string \<Rightarrow> error + byte list" where
  "open_rb fs path =
     (case fs path of
        None \<Rightarrow> Inl FileNotFoundError
      | Some (Dir names) \<Rightarrow> Inl IsADirectoryError
      | Some (File raw) \<Rightarrow> Inr raw)"

text \<open>\<open>os.path.join\<close> of two components (POSIX).\<close>

definition path_join :: "string \<Rightarrow> string \<Rightarrow> string" where
  "path_join a b =
     (if b \<noteq> [] \<and> hd b = CHR ''/'' then b
      else if a = [] \<or> last a = CHR ''/'' then a @ b
      else a @ ''/'' @ b)"

subsection \<open>File names\<close>

text \<open>
  \<^verbatim>\<open>pattern = r'e(.*?)a'\<close>. \<open>lazy_group s\<close> matches \<^verbatim>\<open>(.*?)a\<close> at the head of \<open>s\<close>:
  the group is the shortest prefix followed by \<open>a\<close>, and \<open>.\<close> does not match a
  newline. It returns the group and what follows the \<open>a\<close>.
\<close>

fun lazy_group :: "string \<Rightarrow> (string \<times> string) option" where
  "lazy_group [] = None"
| "lazy_group (c # cs) =
     (if c = CHR ''a'' then Some ([], cs)
      else if c = CHR 0x0A then None
      else (case lazy_group cs of
              None \<Rightarrow> None
            | Some (g, rest) \<Rightarrow> Some (c # g, rest)))"

lemma lazy_group_rest: "lazy_group cs = Some (g, rest) \<Longrightarrow> length rest < length cs"
  by (induction cs arbitrary: g rest) (auto split: if_splits option.splits)

text \<open>\<open>re.findall(pattern, s)\<close>: the groups of the matches, left to right, not overlapping.\<close>

function findall :: "string \<Rightarrow> string list" where
  "findall [] = []"
| "findall (c # cs) =
     (if c = CHR ''e'' then
        (case lazy_group cs of
           None \<Rightarrow> findall cs
         | Some (g, rest) \<Rightarrow> g # findall rest)
      else findall cs)"
  by pat_completeness auto
termination
  by (relation "measure length") (auto dest: lazy_group_rest)

text \<open>\<^verbatim>\<open>re.findall(pattern, filename)[0]\<close>\<close>

definition findall_0 :: "string \<Rightarrow> error + string" where
  "findall_0 filename =
     (case findall filename of [] \<Rightarrow> Inl IndexError | g # gs \<Rightarrow> Inr g)"

text \<open>
  \<open>int(s)\<close> for a string of ASCII characters: white space around, an optional sign,
  decimal digits with single underscores between them. On a string with characters
  outside ASCII this function fails, where Python also reads the decimal digits and
  the white space of Unicode: it is Python's \<open>int\<close> on ASCII strings only, and a
  statement that rests on its result for an arbitrary name assumes \<open>ascii_name\<close>.
  Such a name has at most 255 bytes, as the file systems allow, so that the limit
  Python puts on the number of digits \<open>int\<close> reads (4300) is not reached either.
\<close>

definition ascii_name :: "string \<Rightarrow> bool" where
  "ascii_name s = (length s \<le> 255 \<and> list_all (\<lambda>c. of_char c < (128 :: nat)) s)"

definition is_space :: "char \<Rightarrow> bool" where
  "is_space c = (c \<in> set [CHR 0x09, CHR 0x0A, CHR 0x0B, CHR 0x0C, CHR 0x0D, CHR '' ''])"

definition digit_of :: "char \<Rightarrow> int option" where
  "digit_of c = map_of (zip ''0123456789'' [0, 1, 2, 3, 4, 5, 6, 7, 8, 9]) c"

text \<open>\<open>digits acc s\<close>: the rest of a number whose digits so far make \<open>acc\<close>.\<close>

fun digits :: "int \<Rightarrow> string \<Rightarrow> int option" where
  "digits acc [] = Some acc"
| "digits acc [c] =
     (case digit_of c of None \<Rightarrow> None | Some d \<Rightarrow> Some (10 * acc + d))"
| "digits acc (c # c' # cs) =
     (if c = CHR ''_'' then
        (case digit_of c' of None \<Rightarrow> None | Some d \<Rightarrow> digits (10 * acc + d) cs)
      else (case digit_of c of None \<Rightarrow> None | Some d \<Rightarrow> digits (10 * acc + d) (c' # cs)))"

definition unsigned :: "string \<Rightarrow> int option" where
  "unsigned s =
     (case s of
        [] \<Rightarrow> None
      | c # cs \<Rightarrow> (case digit_of c of None \<Rightarrow> None | Some d \<Rightarrow> digits d cs))"

definition strip :: "string \<Rightarrow> string" where
  "strip s = rev (dropWhile is_space (rev (dropWhile is_space s)))"

definition py_int :: "string \<Rightarrow> error + int" where
  "py_int s =
     (let t = strip s;
          r = (case t of
                 [] \<Rightarrow> None
               | c # cs \<Rightarrow>
                   if c = CHR ''-'' then map_option uminus (unsigned cs)
                   else if c = CHR ''+'' then unsigned cs
                   else unsigned t)
      in case r of None \<Rightarrow> Inl ValueError | Some n \<Rightarrow> Inr n)"

text \<open>\<open>str(i)\<close> for an integer.\<close>

fun str_nat :: "nat \<Rightarrow> string" where
  "str_nat n =
     (if n < 10 then [''0123456789'' ! n]
      else str_nat (n div 10) @ [''0123456789'' ! (n mod 10)])"

declare str_nat.simps [simp del]

definition str :: "int \<Rightarrow> string" where
  "str i = (if i < 0 then CHR ''-'' # str_nat (nat (- i)) else str_nat (nat i))"

definition startswith :: "string \<Rightarrow> string \<Rightarrow> bool" where
  "startswith s pre = (take (length pre) s = pre)"

text \<open>\<^verbatim>\<open>filename.replace("L", "R", 1)\<close>: the first \<open>L\<close> becomes \<open>R\<close>.\<close>

fun replace_L_R :: "string \<Rightarrow> string" where
  "replace_L_R [] = []"
| "replace_L_R (c # cs) = (if c = CHR ''L'' then CHR ''R'' # cs else c # replace_L_R cs)"

subsection \<open>Decoding the samples\<close>

text \<open>
  \<^verbatim>\<open>struct.unpack(">h", buf)[0]\<close>: a big-endian signed 16-bit integer from a buffer
  of exactly two bytes; any other length raises \<open>struct.error\<close>.
\<close>

definition int16_be :: "byte \<Rightarrow> byte \<Rightarrow> int" where
  "int16_be hi lo =
     (let u = 256 * uint hi + uint lo in if u < 32768 then u else u - 65536)"

definition unpack_h :: "byte list \<Rightarrow> error + int" where
  "unpack_h buf =
     (case buf of
        [hi, lo] \<Rightarrow> Inr (int16_be hi lo)
      | _ \<Rightarrow> Inl StructError)"

text \<open>
  \<^verbatim>\<open>for j in range(0, len(raw_data), 2):
      sample = struct.unpack(">h", raw_data[j:j+2])[0]
      encoded_data.append((sample))\<close>
\<close>

function decode_loop :: "byte list \<Rightarrow> nat \<Rightarrow> int list \<Rightarrow> error + int list" where
  "decode_loop raw_data j encoded_data =
     (if j < length raw_data then
        (case unpack_h (take 2 (drop j raw_data)) of
           Inl e \<Rightarrow> Inl e
         | Inr sample \<Rightarrow> decode_loop raw_data (j + 2) (encoded_data @ [sample]))
      else Inr encoded_data)"
  by pat_completeness auto
termination
  by (relation "measure (\<lambda>(raw_data, j, encoded_data). length raw_data - j)") auto

declare decode_loop.simps [simp del]

definition decode :: "byte list \<Rightarrow> error + int list" where
  "decode raw_data = decode_loop raw_data 0 []"

subsection \<open>The scan\<close>

definition sample_size :: nat where
  "sample_size = 128"

text \<open>\<^verbatim>\<open>encoded_data[40:sample_size + 40]\<close>: a Python slice never raises.\<close>

definition window :: "int list \<Rightarrow> int list" where
  "window encoded_data = take (sample_size + 40 - 40) (drop 40 encoded_data)"

text \<open>An element \<^verbatim>\<open>[i, int(azi), convert_int_to_float(...)]\<close> of \<open>data_arrays\<close>.\<close>

record entry =
  elevation :: int
  azimuth :: int
  samples :: "rat list"

text \<open>
  What the script does with one file once it is open, up to the test of the first
  letter: read, match the pattern, decode, convert the match to an integer.
\<close>

definition read_measurement :: "filesystem \<Rightarrow> string \<Rightarrow> string \<Rightarrow> error + (int \<times> int list)" where
  "read_measurement fs file_path filename =
     (case open_rb fs file_path of
        Inl e \<Rightarrow> Inl e
      | Inr raw_data \<Rightarrow>
          (case findall_0 filename of
             Inl e \<Rightarrow> Inl e
           | Inr azi \<Rightarrow>
               (case decode raw_data of
                  Inl e \<Rightarrow> Inl e
                | Inr encoded_data \<Rightarrow>
                    (case py_int azi of
                       Inl e \<Rightarrow> Inl e
                     | Inr azi_key \<Rightarrow> Inr (azi_key, encoded_data)))))"

text \<open>
  The body of the inner loop, for one name of the listing. The \<open>print\<close> of the
  window's length writes to the standard output only and is left out.
\<close>

definition scan_file :: "filesystem \<Rightarrow> int \<Rightarrow> string \<Rightarrow> string \<Rightarrow> entry list \<Rightarrow> error + entry list" where
  "scan_file fs i folder_path filename data_arrays =
     (let file_path = path_join folder_path filename in
      if isfile fs file_path then
        (case read_measurement fs file_path filename of
           Inl e \<Rightarrow> Inl e
         | Inr (azi, encoded_data) \<Rightarrow>
             if startswith filename ''L'' then
               (let data_arrays1 = data_arrays @
                      [\<lparr>elevation = i, azimuth = azi,
                        samples = convert_int_to_float (window encoded_data)\<rparr>];
                    file_path2 = path_join folder_path (replace_L_R filename)
                in case read_measurement fs file_path2 filename of
                     Inl e \<Rightarrow> Inl e
                   | Inr (azi2, encoded_data2) \<Rightarrow>
                       Inr (data_arrays1 @
                         [\<lparr>elevation = i, azimuth = azi2,
                           samples = convert_int_to_float (window encoded_data2)\<rparr>]))
             else Inr data_arrays)
      else Inr data_arrays)"

fun scan_files :: "filesystem \<Rightarrow> int \<Rightarrow> string \<Rightarrow> string list \<Rightarrow> entry list \<Rightarrow> error + entry list" where
  "scan_files fs i folder_path [] data_arrays = Inr data_arrays"
| "scan_files fs i folder_path (filename # names) data_arrays =
     (case scan_file fs i folder_path filename data_arrays of
        Inl e \<Rightarrow> Inl e
      | Inr data_arrays' \<Rightarrow> scan_files fs i folder_path names data_arrays')"

definition folder_of :: "int \<Rightarrow> string" where
  "folder_of i = ''elev'' @ str i"

definition scan_folder :: "filesystem \<Rightarrow> int \<Rightarrow> entry list \<Rightarrow> error + entry list" where
  "scan_folder fs i data_arrays =
     (case listdir fs (folder_of i) of
        Inl e \<Rightarrow> Inl e
      | Inr names \<Rightarrow> scan_files fs i (folder_of i) names data_arrays)"

fun scan_folders :: "filesystem \<Rightarrow> int list \<Rightarrow> entry list \<Rightarrow> error + entry list" where
  "scan_folders fs [] data_arrays = Inr data_arrays"
| "scan_folders fs (i # is) data_arrays =
     (case scan_folder fs i data_arrays of
        Inl e \<Rightarrow> Inl e
      | Inr data_arrays' \<Rightarrow> scan_folders fs is data_arrays')"

text \<open>\<open>range(start, stop, step)\<close> for a positive step.\<close>

function py_range :: "int \<Rightarrow> int \<Rightarrow> int \<Rightarrow> int list" where
  "py_range start stop step =
     (if 0 < step \<and> start < stop then start # py_range (start + step) stop step else [])"
  by pat_completeness auto
termination
  by (relation "measure (\<lambda>(start, stop, step). nat (stop - start))") auto

declare py_range.simps [simp del]

definition number_range :: "int list" where
  "number_range = py_range (- 40) 100 10"

definition scan :: "filesystem \<Rightarrow> error + entry list" where
  "scan fs = scan_folders fs number_range []"

subsection \<open>\<open>save_data_to_file\<close>\<close>

text \<open>
  The bit pattern of a float32 value: sign, biased exponent, fraction. A value below
  the normal range has exponent field 0.
\<close>

definition f32_bits :: "rat \<Rightarrow> nat" where
  "f32_bits v =
     (if v = 0 then 0
      else let e = max (ilog2 \<bar>v\<bar>) (- 126);
               m = nat \<lfloor>\<bar>v\<bar> / pow2 (e - 23)\<rfloor>;
               sign = (if v < 0 then 2 ^ 31 else 0)
           in if m < 2 ^ 23 then sign + m
              else sign + nat (e + 127) * 2 ^ 23 + (m - 2 ^ 23))"

text \<open>The four bytes of a bit pattern in the byte order of the machine (little-endian).\<close>

definition le_bytes4 :: "nat \<Rightarrow> byte list" where
  "le_bytes4 n =
     [of_nat (n mod 256), of_nat (n div 2 ^ 8 mod 256),
      of_nat (n div 2 ^ 16 mod 256), of_nat (n div 2 ^ 24 mod 256)]"

text \<open>
  \<^verbatim>\<open>struct.pack("f", x)\<close> for a Python integer, in native mode: the integer is
  converted to a double (\<open>struct.error\<close> when it is too large for one), and the double
  is cast to a float, which gives an infinity when it is too large for a float.
\<close>

definition pack_f :: "int \<Rightarrow> error + byte list" where
  "pack_f x =
     (let d = f64_round (of_int x) in
      if pow2 1024 \<le> \<bar>d\<bar> then Inl StructError
      else let f = f32_round d in
           if pow2 128 \<le> \<bar>f\<bar> then Inr (le_bytes4 ((if f < 0 then 2 ^ 31 else 0) + 255 * 2 ^ 23))
           else Inr (le_bytes4 (f32_bits f)))"

text \<open>\<open>data.tobytes()\<close> of a float32 array.\<close>

definition tobytes :: "rat list \<Rightarrow> byte list" where
  "tobytes data = concat (map (\<lambda>v. le_bytes4 (f32_bits v)) data)"

text \<open>
  The loop of \<open>save_data_to_file\<close> over the bytes written so far. An exception leaves
  the file with what was written before it.
\<close>

fun write_entries :: "entry list \<Rightarrow> byte list \<Rightarrow> error option \<times> byte list" where
  "write_entries [] file = (None, file)"
| "write_entries (r # rs) file =
     (case pack_f (azimuth r) of
        Inl e \<Rightarrow> (Some e, file)
      | Inr azimuth_bytes \<Rightarrow>
          (case pack_f (elevation r) of
             Inl e \<Rightarrow> (Some e, file)
           | Inr elevation_bytes \<Rightarrow>
               write_entries rs
                 (file @ elevation_bytes @ azimuth_bytes @ tobytes (samples r))))"

definition save_data_to_file :: "entry list \<Rightarrow> error option \<times> byte list" where
  "save_data_to_file data_arrays = write_entries data_arrays []"

subsection \<open>The whole script\<close>

text \<open>
  \<open>fault\<close> is the exception that ends the run, if any; \<open>written\<close> is the content of
  \<open>hrtf_128.bin\<close>, or \<open>None\<close> when the script never opened it.
\<close>

record outcome =
  fault :: "error option"
  written :: "byte list option"

definition run :: "filesystem \<Rightarrow> outcome" where
  "run fs =
     (case scan fs of
        Inl e \<Rightarrow> \<lparr>fault = Some e, written = None\<rparr>
      | Inr data_arrays \<Rightarrow>
          (case save_data_to_file data_arrays of
             (err, file) \<Rightarrow> \<lparr>fault = err, written = Some file\<rparr>))"

section \<open>Auxiliary definitions\<close>

subsection \<open>Notions used in the statements and proofs\<close>

text \<open>The samples of a buffer, two bytes at a time (a proof device for \<open>decode_loop\<close>).\<close>

fun samples_of :: "byte list \<Rightarrow> int list" where
  "samples_of (hi # lo # bs) = int16_be hi lo # samples_of bs"
| "samples_of bs = []"

text \<open>The two entries of a left-channel file.\<close>

definition pair_of :: "int \<Rightarrow> int \<Rightarrow> int list \<Rightarrow> int list \<Rightarrow> entry list" where
  "pair_of i a enc enc2 =
     [\<lparr>elevation = i, azimuth = a, samples = convert_int_to_float (window enc)\<rparr>,
      \<lparr>elevation = i, azimuth = a, samples = convert_int_to_float (window enc2)\<rparr>]"

text \<open>\<open>pairs P xs\<close>: the list \<open>xs\<close> is made of consecutive pairs, each in the relation \<open>P\<close>.\<close>

fun pairs :: "('a \<Rightarrow> 'a \<Rightarrow> bool) \<Rightarrow> 'a list \<Rightarrow> bool" where
  "pairs P [] = True"
| "pairs P [x] = False"
| "pairs P (l # r # xs) = (P l r \<and> pairs P xs)"

text \<open>
  Where a pair of entries comes from: a regular file \<open>name\<close> of the folder of \<open>i\<close>
  whose name starts with \<open>L\<close>, and the file named by \<open>replace_L_R name\<close> beside it.
\<close>

definition pair_from :: "filesystem \<Rightarrow> entry \<Rightarrow> entry \<Rightarrow> bool" where
  "pair_from fs l r =
     (\<exists>i \<in> set number_range. \<exists>names. fs (folder_of i) = Some (Dir names) \<and>
        (\<exists>name \<in> set names. \<exists>a enc enc2. startswith name ''L'' \<and>
           read_measurement fs (path_join (folder_of i) name) name = Inr (a, enc) \<and>
           read_measurement fs (path_join (folder_of i) (replace_L_R name)) name = Inr (a, enc2) \<and>
           l = \<lparr>elevation = i, azimuth = a, samples = convert_int_to_float (window enc)\<rparr> \<and>
           r = \<lparr>elevation = i, azimuth = a, samples = convert_int_to_float (window enc2)\<rparr>))"

text \<open>The bytes \<open>save_data_to_file\<close> writes for one entry, when both fields can be packed.\<close>

definition entry_bytes :: "entry \<Rightarrow> byte list" where
  "entry_bytes r =
     (case (pack_f (elevation r), pack_f (azimuth r)) of
        (Inr elevation_bytes, Inr azimuth_bytes) \<Rightarrow>
          elevation_bytes @ azimuth_bytes @ tobytes (samples r)
      | _ \<Rightarrow> [])"

text \<open>The left-channel files the scan meets: regular files whose name starts with \<open>L\<close>.\<close>

definition left_files :: "filesystem \<Rightarrow> (int \<times> string) list" where
  "left_files fs =
     concat (map (\<lambda>i. case fs (folder_of i) of
                         Some (Dir names) \<Rightarrow>
                           map (Pair i)
                             (filter (\<lambda>name. isfile fs (path_join (folder_of i) name) \<and>
                                        startswith name ''L'') names)
                       | _ \<Rightarrow> []) number_range)"

subsection \<open>Concrete file systems\<close>

text \<open>The fourteen folders, each with an empty listing.\<close>

definition empty_folders :: "(string \<times> node) list" where
  "empty_folders = map (\<lambda>i. (folder_of i, Dir [])) number_range"

text \<open>
  A file system with the fourteen folders, all empty but \<open>elev-40\<close>, which lists
  \<open>names\<close> and holds the files \<open>files\<close>.
\<close>

definition fs_one :: "string list \<Rightarrow> (string \<times> byte list) list \<Rightarrow> filesystem" where
  "fs_one names files =
     map_of ((''elev-40'', Dir names) #
             map (\<lambda>(name, raw). (''elev-40/'' @ name, File raw)) files @ empty_folders)"

text \<open>
  The folder \<open>elev40\<close> holds \<open>Le40a90.bin\<close> and \<open>Re40a90.bin\<close>, each of 200 samples
  (400 bytes), all zero; the other folders are empty.
\<close>

definition fs_le40a90 :: filesystem where
  "fs_le40a90 = map_of
     ([(''elev40'', Dir [''Le40a90.bin'', ''Re40a90.bin'']),
       (''elev40/Le40a90.bin'', File (replicate 400 0)),
       (''elev40/Re40a90.bin'', File (replicate 400 0))] @ empty_folders)"

text \<open>The folder \<open>elev-40\<close> holds one right-channel file of a single byte.\<close>

definition fs_odd_right :: filesystem where
  "fs_odd_right = fs_one [''R0e000a.dat''] [(''R0e000a.dat'', [0x00])]"

text \<open>The folder \<open>elev-40\<close> holds a left-channel file and no counterpart.\<close>

definition fs_nopair :: filesystem where
  "fs_nopair = fs_one [''L0e000a.dat''] [(''L0e000a.dat'', [])]"

text \<open>The folder \<open>elev-40\<close> is missing.\<close>

definition fs_nodir :: filesystem where
  "fs_nodir = map_of (tl empty_folders)"

text \<open>The folder \<open>elev-40\<close> holds a file whose name has no match of the pattern.\<close>

definition fs_badname :: filesystem where
  "fs_badname = fs_one [''notes.txt''] [(''notes.txt'', [])]"

text \<open>
  The folder \<open>elev-40\<close> holds a file whose name has a match of the pattern, the empty
  string between the \<open>e\<close> and the \<open>a\<close> of \<open>readme\<close>, which is not an integer.
\<close>

definition fs_badint :: filesystem where
  "fs_badint = fs_one [''readme.txt''] [(''readme.txt'', [])]"

text \<open>The folder \<open>elev-40\<close> holds a pair of files of 100 samples (200 bytes), all zero.\<close>

definition fs_short :: filesystem where
  "fs_short = fs_one [''L0e000a.dat'', ''R0e000a.dat'']
     [(''L0e000a.dat'', replicate 200 0), (''R0e000a.dat'', replicate 200 0)]"

text \<open>
  The folder \<open>elev-40\<close> holds a left-channel file of 200 samples and its counterpart of
  100 samples, all zero.
\<close>

definition fs_mixed :: filesystem where
  "fs_mixed = fs_one [''L0e000a.dat'', ''R0e000a.dat'']
     [(''L0e000a.dat'', replicate 400 0), (''R0e000a.dat'', replicate 200 0)]"

section \<open>Properties\<close>

subsection \<open>Rounding\<close>

lemma pow2_powi: "pow2 e = 2 powi e"
  by (simp add: pow2_def power_int_def inverse_eq_divide power_one_over)

lemma pow2_pos: "0 < pow2 e"
  by (simp add: pow2_powi)

lemma pow2_add: "pow2 (a + b) = pow2 a * pow2 b"
  by (simp add: pow2_powi power_int_add)

lemma pow2_mono: "a \<le> b \<Longrightarrow> pow2 a \<le> pow2 b"
  by (simp add: pow2_powi power_int_increasing)

lemma pow2_strict_mono: "a < b \<Longrightarrow> pow2 a < pow2 b"
  by (simp add: pow2_powi power_int_strict_increasing)

lemma pow2_nat: "pow2 (int n) = 2 ^ n"
  by (simp add: pow2_def)

lemma pow2_less_cancel: "pow2 a < pow2 b \<Longrightarrow> a < b"
  using pow2_mono [of b a] by (cases "a < b") auto

lemma bit_length_upper: "n < 2 ^ bit_length n"
proof (induction n rule: bit_length.induct)
  case (1 n)
  show ?case
  proof (cases "n = 0")
    case True
    then show ?thesis by (simp add: bit_length.simps)
  next
    case False
    with 1 have "n div 2 < 2 ^ bit_length (n div 2)" by simp
    then have "n < 2 * 2 ^ bit_length (n div 2)" by linarith
    with False show ?thesis by (subst bit_length.simps) simp
  qed
qed

lemma bit_length_lower: "0 < n \<Longrightarrow> 2 ^ (bit_length n - 1) \<le> n"
proof (induction n rule: bit_length.induct)
  case (1 n)
  show ?case
  proof (cases "n div 2 = 0")
    case True
    with 1 have "n = 1" by linarith
    then show ?thesis by (simp add: bit_length.simps)
  next
    case False
    with 1 have ih: "2 ^ (bit_length (n div 2) - 1) \<le> n div 2" by simp
    have pos: "0 < bit_length (n div 2)"
      using False by (subst bit_length.simps) simp
    have "bit_length n = Suc (bit_length (n div 2))"
      using 1(2) by (subst bit_length.simps) simp
    then have "(2::nat) ^ (bit_length n - 1) = 2 * 2 ^ (bit_length (n div 2) - 1)"
      using pos by (cases "bit_length (n div 2)") simp_all
    with ih show ?thesis by linarith
  qed
qed

lemma bit_length_pos: "0 < n \<Longrightarrow> 0 < bit_length n"
  by (subst bit_length.simps) simp

lemma ilog2_lower: assumes "0 < q" shows "pow2 (ilog2 q) \<le> q"
proof (cases "1 \<le> q")
  case True
  define n where "n = nat \<lfloor>q\<rfloor>"
  have n: "0 < n" "of_nat n \<le> q"
    using True by (simp_all add: n_def le_floor_iff)
  have "pow2 (ilog2 q) = 2 ^ (bit_length n - 1)"
    using True bit_length_pos [OF n(1)]
    by (simp add: ilog2_def n_def [symmetric] pow2_nat [symmetric] of_nat_diff)
  also have "\<dots> = of_nat (2 ^ (bit_length n - 1))" by simp
  also have "\<dots> \<le> of_nat n"
    using bit_length_lower [OF n(1)] by (simp only: of_nat_le_iff)
  finally show ?thesis using n(2) by simp
next
  case False
  define m where "m = nat (\<lceil>1 / q\<rceil> - 1)"
  have "1 < 1 / q" using assms False by simp
  then have c: "2 \<le> \<lceil>1 / q\<rceil>" by (simp add: le_ceiling_iff) 
  have "1 / q \<le> of_int \<lceil>1 / q\<rceil>" by (rule le_of_int_ceiling)
  also have "\<dots> = of_nat m + 1"
  proof -
    have "(of_nat m :: rat) = of_int (\<lceil>1 / q\<rceil> - 1)"
      unfolding m_def using c assms by (subst of_nat_nat) simp_all
    then show ?thesis by simp
  qed
  also have "\<dots> \<le> 2 ^ bit_length m"
  proof -
    have "m + 1 \<le> 2 ^ bit_length m" using bit_length_upper [of m] by simp
    then have "(of_nat (m + 1) :: rat) \<le> of_nat (2 ^ bit_length m)"
      by (simp only: of_nat_le_iff)
    then show ?thesis by simp
  qed
  finally have "1 / q \<le> 2 ^ bit_length m" .
  then have "1 / 2 ^ bit_length m \<le> q"
    using assms by (simp add: field_simps)
  moreover have "pow2 (ilog2 q) = 1 / 2 ^ bit_length m"
    using False by (simp add: ilog2_def m_def [symmetric] pow2_powi power_int_minus inverse_eq_divide)
  ultimately show ?thesis by simp
qed

lemma ilog2_upper: assumes "0 < q" shows "q < pow2 (ilog2 q + 1)"
proof (cases "1 \<le> q")
  case True
  define n where "n = nat \<lfloor>q\<rfloor>"
  have "0 \<le> \<lfloor>q\<rfloor>" using True by simp
  then have "(of_nat n :: rat) = of_int \<lfloor>q\<rfloor>"
    unfolding n_def by (subst of_nat_nat) simp_all
  then have n: "q < of_nat n + 1"
    using floor_correct [of q] by simp
  have "of_nat n + 1 = (of_nat (n + 1) :: rat)" by simp
  also have "\<dots> \<le> of_nat (2 ^ bit_length n)"
    using bit_length_upper [of n] by (simp only: of_nat_le_iff)
  also have "\<dots> = pow2 (ilog2 q + 1)"
    using True by (simp add: ilog2_def n_def [symmetric] pow2_nat [symmetric])
  finally show ?thesis using n by simp
next
  case False
  define m where "m = nat (\<lceil>1 / q\<rceil> - 1)"
  have "1 < 1 / q" using assms False by simp
  then have c: "2 \<le> \<lceil>1 / q\<rceil>" by (simp add: le_ceiling_iff)
  then have m: "0 < m" by (simp add: m_def)
  have "(of_nat (2 ^ (bit_length m - 1)) :: rat) \<le> of_nat m"
    using bit_length_lower [OF m] by (simp only: of_nat_le_iff)
  also have "\<dots> = of_int \<lceil>1 / q\<rceil> - 1"
  proof -
    have "(of_nat m :: rat) = of_int (\<lceil>1 / q\<rceil> - 1)"
      unfolding m_def using c assms by (subst of_nat_nat) simp_all
    then show ?thesis by simp
  qed
  also have "\<dots> < 1 / q" using ceiling_correct [of "1 / q"] by simp
  finally have "2 ^ (bit_length m - 1) < 1 / q" by simp
  then have "q < 1 / 2 ^ (bit_length m - 1)"
    using assms by (simp add: field_simps)
  moreover have "pow2 (ilog2 q + 1) = 1 / 2 ^ (bit_length m - 1)"
  proof -
    have "ilog2 q + 1 = - int (bit_length m - 1)"
      using False bit_length_pos [OF m] by (simp add: ilog2_def m_def [symmetric] of_nat_diff)
    then show ?thesis
      by (simp add: pow2_powi power_int_minus inverse_eq_divide)
  qed
  ultimately show ?thesis by simp
qed

lemma round_half_even_error: "\<bar>of_int (round_half_even r) - r\<bar> \<le> 1 / 2"
proof -
  have "of_int \<lfloor>r\<rfloor> \<le> r" "r < of_int \<lfloor>r\<rfloor> + 1"
    using floor_correct [of r] by simp_all
  then show ?thesis
    by (auto simp: round_half_even_def Let_def abs_le_iff)
qed

lemma round_half_even_of_int: "round_half_even (of_int n) = n"
  by (simp add: round_half_even_def)

lemma round_half_even_le: "r \<le> of_int n \<Longrightarrow> round_half_even r \<le> n"
proof -
  assume "r \<le> of_int n"
  with round_half_even_error [of r]
  have "(of_int (round_half_even r) :: rat) < of_int n + 1"
    by linarith
  then have "(of_int (round_half_even r) :: rat) < of_int (n + 1)"
    by simp
  then have "round_half_even r < n + 1" by (simp only: of_int_less_iff)
  then show ?thesis by simp
qed

lemma round_half_even_ge: "of_int n \<le> r \<Longrightarrow> n \<le> round_half_even r"
proof -
  assume "of_int n \<le> r"
  with round_half_even_error [of r]
  have "(of_int n :: rat) - 1 < of_int (round_half_even r)"
    by linarith
  then have "(of_int (n - 1) :: rat) < of_int (round_half_even r)"
    by simp
  then have "n - 1 < round_half_even r" by (simp only: of_int_less_iff)
  then show ?thesis by simp
qed

text \<open>The exponent and the unit in the last place that \<open>fl_round\<close> works with.\<close>

lemma fl_round_unfold:
  "q \<noteq> 0 \<Longrightarrow>
   fl_round p emin q =
     sgn q * of_int (round_half_even (\<bar>q\<bar> / pow2 (max (ilog2 \<bar>q\<bar>) emin - int p + 1))) *
       pow2 (max (ilog2 \<bar>q\<bar>) emin - int p + 1)"
  by (simp add: fl_round_def Let_def)

lemma fl_round_error:
  assumes "q \<noteq> 0"
  shows "\<bar>fl_round p emin q - q\<bar> \<le> pow2 (max (ilog2 \<bar>q\<bar>) emin - int p + 1) / 2"
proof -
  define u where "u = pow2 (max (ilog2 \<bar>q\<bar>) emin - int p + 1)"
  define m where "m = round_half_even (\<bar>q\<bar> / u)"
  have u: "0 < u" by (simp add: u_def pow2_pos)
  have "\<bar>of_int m - \<bar>q\<bar> / u\<bar> \<le> 1 / 2"
    unfolding m_def by (rule round_half_even_error)
  then have "\<bar>of_int m - \<bar>q\<bar> / u\<bar> * u \<le> 1 / 2 * u"
    using u by (intro mult_right_mono) simp_all
  moreover have "\<bar>of_int m - \<bar>q\<bar> / u\<bar> * u = \<bar>of_int m * u - \<bar>q\<bar>\<bar>"
  proof -
    have "\<bar>of_int m - \<bar>q\<bar> / u\<bar> * u = \<bar>(of_int m - \<bar>q\<bar> / u) * u\<bar>"
      using u by (simp add: abs_mult)
    also have "(of_int m - \<bar>q\<bar> / u) * u = of_int m * u - \<bar>q\<bar>"
      using u by (simp add: left_diff_distrib)
    finally show ?thesis .
  qed
  ultimately have e: "\<bar>of_int m * u - \<bar>q\<bar>\<bar> \<le> u / 2" by simp
  have "fl_round p emin q - q = sgn q * (of_int m * u - \<bar>q\<bar>)"
    using assms by (simp add: fl_round_unfold u_def m_def right_diff_distrib sgn_mult_abs mult.assoc)
  then have "\<bar>fl_round p emin q - q\<bar> = \<bar>of_int m * u - \<bar>q\<bar>\<bar>"
    using assms by (simp add: abs_mult abs_sgn_eq)
  with e show ?thesis by (simp add: u_def)
qed

lemma fl_round_abs:
  assumes "q \<noteq> 0"
  shows "\<bar>fl_round p emin q\<bar> =
    of_int (round_half_even (\<bar>q\<bar> / pow2 (max (ilog2 \<bar>q\<bar>) emin - int p + 1))) *
       pow2 (max (ilog2 \<bar>q\<bar>) emin - int p + 1)"
proof -
  define u where "u = pow2 (max (ilog2 \<bar>q\<bar>) emin - int p + 1)"
  have u: "0 < u" by (simp add: u_def pow2_pos)
  have "0 \<le> \<bar>q\<bar> / u" using u by simp
  then have "0 \<le> round_half_even (\<bar>q\<bar> / u)"
    by (intro round_half_even_ge) simp
  then show ?thesis
    using assms u by (simp add: fl_round_unfold u_def [symmetric] abs_mult abs_sgn_eq)
qed

lemma fl_round_upper:
  assumes "q \<noteq> 0"
  shows "\<bar>fl_round p emin q\<bar> \<le> pow2 (max (ilog2 \<bar>q\<bar>) emin + 1)"
proof -
  define e where "e = max (ilog2 \<bar>q\<bar>) emin"
  define u where "u = pow2 (e - int p + 1)"
  have u: "0 < u" by (simp add: u_def pow2_pos)
  have "\<bar>q\<bar> < pow2 (ilog2 \<bar>q\<bar> + 1)"
    using assms by (intro ilog2_upper) simp
  also have "\<dots> \<le> pow2 (e + 1)"
    by (intro pow2_mono) (simp add: e_def)
  also have "\<dots> = 2 ^ p * u"
    using pow2_add [of "int p" "e - int p + 1"] by (simp add: u_def pow2_nat)
  finally have "\<bar>q\<bar> / u \<le> of_int (2 ^ p)"
    using u by (simp add: field_simps)
  then have "round_half_even (\<bar>q\<bar> / u) \<le> 2 ^ p"
    by (rule round_half_even_le)
  then have "(of_int (round_half_even (\<bar>q\<bar> / u)) :: rat) \<le> of_int (2 ^ p)"
    by (simp only: of_int_le_iff)
  then have "of_int (round_half_even (\<bar>q\<bar> / u)) * u \<le> 2 ^ p * u"
    using u by (intro mult_right_mono) simp_all
  also have "2 ^ p * u = pow2 (e + 1)"
    using pow2_add [of "int p" "e - int p + 1"] by (simp add: u_def pow2_nat)
  finally show ?thesis
    using assms by (simp add: fl_round_abs u_def e_def)
qed

lemma fl_round_of_int:
  assumes "\<bar>x\<bar> < 2 ^ p" and "emin \<le> 0" and "0 < p"
  shows "fl_round p emin (of_int x) = of_int x"
proof (cases "x = 0")
  case True
  then show ?thesis by (simp add: fl_round_def)
next
  case False
  define q :: rat where "q = of_int x"
  define e where "e = max (ilog2 \<bar>q\<bar>) emin"
  have q: "q \<noteq> 0" "1 \<le> \<bar>q\<bar>" "\<bar>q\<bar> = of_int \<bar>x\<bar>"
    using False by (simp_all add: q_def)
  have "0 < nat \<lfloor>\<bar>q\<bar>\<rfloor>"
    using q(2) by (simp add: le_floor_iff)
  then have "0 \<le> ilog2 \<bar>q\<bar>"
    using q(2) bit_length_pos [of "nat \<lfloor>\<bar>q\<bar>\<rfloor>"] by (simp add: ilog2_def)
  then have e0: "0 \<le> e" "e = ilog2 \<bar>q\<bar>"
    using assms(2) by (simp_all add: e_def)
  have "pow2 e \<le> \<bar>q\<bar>"
    unfolding e0(2) using q(1) by (intro ilog2_lower) simp
  also have "\<bar>q\<bar> < pow2 (int p)"
  proof -
    have "(of_int \<bar>x\<bar> :: rat) < of_int (2 ^ p)"
      using assms(1) by (simp only: of_int_less_iff)
    then show ?thesis by (simp add: q(3) pow2_nat)
  qed
  finally have ep: "e < int p" by (rule pow2_less_cancel)
  define k where "k = nat (int p - 1 - e)"
  have k: "e - int p + 1 = - int k"
    using ep by (simp add: k_def)
  have u: "pow2 (e - int p + 1) = 1 / 2 ^ k"
    unfolding k by (simp add: pow2_powi power_int_minus inverse_eq_divide)
  have "\<bar>q\<bar> / pow2 (e - int p + 1) = of_int (\<bar>x\<bar> * 2 ^ k)"
    by (simp add: u q(3))
  then have r: "round_half_even (\<bar>q\<bar> / pow2 (e - int p + 1)) = \<bar>x\<bar> * 2 ^ k"
    by (simp only: round_half_even_of_int)
  have "fl_round p emin q = sgn q * of_int (\<bar>x\<bar> * 2 ^ k) * (1 / 2 ^ k)"
    using q(1) r u by (simp add: fl_round_unfold e_def [symmetric])
  also have "\<dots> = sgn q * \<bar>q\<bar>"
    by (simp add: q(3))
  also have "\<dots> = q" by (simp add: sgn_mult_abs)
  finally show ?thesis by (simp add: q_def)
qed

lemma floor_rat_numeral: "\<lfloor>numeral a / numeral b :: rat\<rfloor> = numeral a div numeral b"
  by (metis floor_divide_of_int_eq of_int_numeral)

lemma ilog2_min_quotient: "ilog2 (32768 / 32767) = 0"
  by (simp add: ilog2_def bit_length.simps floor_rat_numeral)

lemma f32_round_min_quotient: "f32_round (- (32768 / 32767)) = - (32769 / 32768)"
  by (simp add: f32_round_def fl_round_def ilog2_min_quotient pow2_def round_half_even_def
      Let_def floor_rat_numeral)

lemma np_float32_exact:
  assumes "\<bar>x\<bar> < 2 ^ 24"
  shows "np_float32 x = of_int x"
proof -
  have "\<bar>x\<bar> < 2 ^ 53"
    using assms by simp
  then have "f64_round (of_int x) = of_int x"
    unfolding f64_round_def by (intro fl_round_of_int) simp_all
  moreover have "f32_round (of_int x) = of_int x"
    unfolding f32_round_def using assms by (intro fl_round_of_int) simp_all
  ultimately show ?thesis
    by (simp add: np_float32_def)
qed

lemma convert_int_to_float_nth:
  assumes "k < length data" and "- 32768 \<le> data ! k" and "data ! k \<le> 32767"
  shows "convert_int_to_float data ! k = f32_round (of_int (data ! k) / 32767)"
proof -
  have "np_float32 (data ! k) = of_int (data ! k)"
    using assms(2,3) by (intro np_float32_exact) simp
  moreover have "np_float32 int16_max = 32767"
    using np_float32_exact [of int16_max] by (simp add: int16_max_def)
  ultimately show ?thesis
    using assms(1) by (simp add: convert_int_to_float_def f32_div_def)
qed

lemma f32_round_relative_error:
  assumes "pow2 (- 126) \<le> \<bar>q\<bar>"
  shows "\<bar>f32_round q - q\<bar> \<le> \<bar>q\<bar> / 2 ^ 24"
proof -
  have q: "q \<noteq> 0" "0 < \<bar>q\<bar>"
    using assms pow2_pos [of "- 126"] by auto
  have "pow2 (- 126) < pow2 (ilog2 \<bar>q\<bar> + 1)"
    using assms ilog2_upper [OF q(2)] by simp
  then have "- 126 \<le> ilog2 \<bar>q\<bar>"
    using pow2_less_cancel [of "- 126" "ilog2 \<bar>q\<bar> + 1"] by simp
  then have e: "max (ilog2 \<bar>q\<bar>) (- 126) = ilog2 \<bar>q\<bar>" by simp
  have "\<bar>f32_round q - q\<bar> \<le> pow2 (ilog2 \<bar>q\<bar> - int 24 + 1) / 2"
    using fl_round_error [OF q(1), of 24 "- 126"] by (simp add: f32_round_def e)
  also have "pow2 (ilog2 \<bar>q\<bar> - int 24 + 1) = pow2 (ilog2 \<bar>q\<bar>) * pow2 (- 23)"
    using pow2_add [of "ilog2 \<bar>q\<bar>" "- 23"] by simp
  also have "pow2 (- 23) = 1 / 2 ^ 23"
    by (simp add: pow2_def)
  also have "pow2 (ilog2 \<bar>q\<bar>) * (1 / 2 ^ 23) / 2 = pow2 (ilog2 \<bar>q\<bar>) / 2 ^ 24"
    by simp
  also have "\<dots> \<le> \<bar>q\<bar> / 2 ^ 24"
    using ilog2_lower [OF q(2)] by (simp add: divide_right_mono)
  finally show ?thesis .
qed

lemma f32_round_unit:
  assumes "\<bar>q\<bar> \<le> 1"
  shows "\<bar>f32_round q\<bar> \<le> 1"
proof (cases "q = 0 \<or> \<bar>q\<bar> = 1")
  case True
  then consider "q = 0" | "q = of_int 1" | "q = of_int (- 1)" by fastforce
  then show ?thesis
  proof cases
    case 1
    then show ?thesis by (simp add: f32_round_def fl_round_def)
  next
    case 2
    have "f32_round (of_int 1) = of_int 1"
      unfolding f32_round_def by (rule fl_round_of_int) simp_all
    with 2 show ?thesis by simp
  next
    case 3
    have "f32_round (of_int (- 1)) = of_int (- 1)"
      unfolding f32_round_def by (rule fl_round_of_int) simp_all
    with 3 show ?thesis by simp
  qed
next
  case False
  with assms have q: "q \<noteq> 0" "0 < \<bar>q\<bar>" "\<bar>q\<bar> < 1" by auto
  have "pow2 (ilog2 \<bar>q\<bar>) < pow2 0"
    using ilog2_lower [OF q(2)] q(3) by (simp add: pow2_def)
  then have "ilog2 \<bar>q\<bar> < 0" by (rule pow2_less_cancel)
  then have "max (ilog2 \<bar>q\<bar>) (- 126) + 1 \<le> 0" by simp
  then have "pow2 (max (ilog2 \<bar>q\<bar>) (- 126) + 1) \<le> pow2 0" by (rule pow2_mono)
  with fl_round_upper [OF q(1), of 24 "- 126"] show ?thesis
    by (simp add: f32_round_def pow2_def)
qed

subsection \<open>The decoder\<close>

lemma unpack_h_two: "unpack_h [hi, lo] = Inr (int16_be hi lo)"
  by (simp add: unpack_h_def)

lemma unpack_h_one: "unpack_h [b] = Inl StructError"
  by (simp add: unpack_h_def)

lemma decode_loop_eq:
  "j \<le> length raw \<Longrightarrow>
   decode_loop raw j enc =
     (if even (length raw - j) then Inr (enc @ samples_of (drop j raw)) else Inl StructError)"
proof (induction raw j enc rule: decode_loop.induct)
  case (1 raw j enc)
  show ?case
  proof (cases "j < length raw")
    case False
    with 1 show ?thesis by (simp add: decode_loop.simps)
  next
    case True
    show ?thesis
    proof (cases "Suc j < length raw")
      case False
      with True have d: "drop j raw = [raw ! j]" and l: "length raw - j = 1"
        by (auto simp: Cons_nth_drop_Suc [symmetric])
      show ?thesis using True
        by (subst decode_loop.simps) (simp add: d l unpack_h_one)
    next
      case t: True
      then have d: "drop j raw = raw ! j # raw ! Suc j # drop (j + 2) raw"
        using True by (simp add: Cons_nth_drop_Suc)
      let ?s = "int16_be (raw ! j) (raw ! Suc j)"
      have u: "unpack_h (take 2 (drop j raw)) = Inr ?s"
        by (simp add: d unpack_h_two)
      have ih: "decode_loop raw (j + 2) (enc @ [?s]) =
          (if even (length raw - (j + 2)) then Inr ((enc @ [?s]) @ samples_of (drop (j + 2) raw))
           else Inl StructError)"
        using "1.IH" [OF True u] t by simp
      have ev: "even (length raw - (j + 2)) = even (length raw - j)"
        using t by auto
      have "decode_loop raw j enc = decode_loop raw (j + 2) (enc @ [?s])"
        using True by (subst decode_loop.simps) (simp add: u)
      also have "\<dots> =
          (if even (length raw - j) then Inr (enc @ samples_of (drop j raw)) else Inl StructError)"
        unfolding ih ev by (simp add: d)
      finally show ?thesis .
    qed
  qed
qed

lemma decode_eq:
  "decode raw = (if even (length raw) then Inr (samples_of raw) else Inl StructError)"
  by (simp add: decode_def decode_loop_eq)

lemma length_samples_of: "length (samples_of raw) = length raw div 2"
  by (induction raw rule: samples_of.induct) auto

lemma samples_of_nth:
  "2 * k + 1 < length raw \<Longrightarrow>
   samples_of raw ! k = int16_be (raw ! (2 * k)) (raw ! (2 * k + 1))"
proof (induction raw arbitrary: k rule: samples_of.induct)
  case (1 hi lo bs)
  then show ?case
    by (cases k) simp_all
qed simp_all

lemma int16_be_range: "- 32768 \<le> int16_be hi lo \<and> int16_be hi lo \<le> 32767"
proof -
  define u where "u = 256 * uint hi + uint lo"
  have "uint hi < 256" "uint lo < 256"
    using uint_lt2p [of hi] uint_lt2p [of lo] by simp_all
  moreover have "0 \<le> uint hi" "0 \<le> uint lo"
    by simp_all
  ultimately have "0 \<le> u" "u \<le> 65535"
    unfolding u_def by linarith+
  moreover have "int16_be hi lo = (if u < 32768 then u else u - 65536)"
    by (simp add: int16_be_def Let_def u_def)
  ultimately show ?thesis by auto
qed

lemma samples_of_range: "s \<in> set (samples_of raw) \<Longrightarrow> - 32768 \<le> s \<and> s \<le> 32767"
  by (induction raw rule: samples_of.induct) (auto simp: int16_be_range)

lemma decode_range:
  "decode raw = Inr enc \<Longrightarrow> s \<in> set enc \<Longrightarrow> - 32768 \<le> s \<and> s \<le> 32767"
  using samples_of_range [of s raw] by (simp add: decode_eq split: if_splits)

text \<open>
  C2, as stated: a buffer of odd length loses its last byte and the chunks before it are
  decoded. It fails on the three bytes \<open>00 01 02\<close>: the loop reaches \<open>j = 2\<close>, the
  slice \<open>raw_data[2:4]\<close> holds one byte, and \<open>struct.unpack\<close> raises; the sample 1 of
  the first chunk is not returned.
\<close>

theorem decode_odd_counterexample:
  "decode [0x00, 0x01, 0x02] = Inl StructError \<and> decode [0x00, 0x01, 0x02] \<noteq> Inr [1]"
  by (simp add: decode_eq)

text \<open>
  C2, amended: on a buffer of odd length the decoder raises \<open>struct.error\<close> (the
  trailing byte is a chunk of its own, since \<open>range(0, len, 2)\<close> reaches it); on a
  buffer of even length it returns one sample per 2-byte chunk, in order.
\<close>

theorem decode_odd_raises:
  "(odd (length raw_data) \<longrightarrow> decode raw_data = Inl StructError) \<and>
   (even (length raw_data) \<longrightarrow>
      (\<exists>enc. decode raw_data = Inr enc \<and> length enc = length raw_data div 2 \<and>
         (\<forall>k < length enc. enc ! k = int16_be (raw_data ! (2 * k)) (raw_data ! (2 * k + 1)))))"
proof (intro conjI impI)
  assume "odd (length raw_data)"
  then show "decode raw_data = Inl StructError"
    by (simp add: decode_eq)
next
  assume ev: "even (length raw_data)"
  have "\<forall>k < length (samples_of raw_data).
          samples_of raw_data ! k = int16_be (raw_data ! (2 * k)) (raw_data ! (2 * k + 1))"
  proof (intro allI impI)
    fix k
    assume "k < length (samples_of raw_data)"
    then have "2 * k + 1 < length raw_data"
      using ev by (auto simp: length_samples_of elim!: evenE)
    then show "samples_of raw_data ! k = int16_be (raw_data ! (2 * k)) (raw_data ! (2 * k + 1))"
      by (rule samples_of_nth)
  qed
  with ev show "\<exists>enc. decode raw_data = Inr enc \<and> length enc = length raw_data div 2 \<and>
         (\<forall>k < length enc. enc ! k = int16_be (raw_data ! (2 * k)) (raw_data ! (2 * k + 1)))"
    by (simp add: decode_eq length_samples_of)
qed

theorem decode_odd_raises_witness:
  "odd (length [0x00, 0x01, 0x02 :: byte]) \<and> decode [0x00, 0x01, 0x02] = Inl StructError \<and>
   even (length [0x00, 0x01, 0xFF, 0xFE :: byte]) \<and> decode [0x00, 0x01, 0xFF, 0xFE] = Inr [1, - 2]"
proof -
  have "decode [0x00, 0x01, 0x02] = Inl StructError"
    using decode_odd_raises [of "[0x00, 0x01, 0x02]"] by simp
  moreover obtain enc where e: "decode [0x00, 0x01, 0xFF, 0xFE] = Inr enc" "length enc = 2"
      "\<forall>k < length enc. enc ! k =
          int16_be ([0x00, 0x01, 0xFF, 0xFE] ! (2 * k)) ([0x00, 0x01, 0xFF, 0xFE] ! (2 * k + 1))"
    using decode_odd_raises [of "[0x00, 0x01, 0xFF, 0xFE]"] by auto
  have "enc ! 0 = 1" "enc ! 1 = - 2"
    using e(2) e(3) [rule_format, of 0] e(3) [rule_format, of 1]
    by (simp_all add: int16_be_def)
  with e(2) have "enc = [1, - 2]"
    by (cases enc; cases "tl enc") auto
  ultimately show ?thesis using e(1) by simp
qed

subsection \<open>Normalised samples\<close>

text \<open>
  C4: every normalised value lies in \<open>[-1, 1]\<close>, as the comment of
  \<open>convert_int_to_float\<close> says too (values from -1 to 1). The function breaks it for
  the sample \<open>-32768\<close>: it divides by the largest int16, 32767, and the quotient
  \<open>-32768 / 32767\<close> rounds to the float32 \<open>-(1 + 2\<^sup>-\<^sup>1\<^sup>5)\<close>, which is below \<open>-1\<close>.
\<close>

theorem convert_int_to_float_below_range:
  "convert_int_to_float [- 32768] = [- (32769 / 32768)] \<and>
   hd (convert_int_to_float [- 32768]) < - 1"
proof -
  have "convert_int_to_float [- 32768] ! 0 = f32_round (of_int ([- 32768] ! 0) / 32767)"
    by (rule convert_int_to_float_nth) simp_all
  then have "convert_int_to_float [- 32768] ! 0 = - (32769 / 32768)"
    by (simp add: f32_round_min_quotient)
  moreover have "length (convert_int_to_float [- 32768]) = 1"
    by (simp add: convert_int_to_float_def)
  ultimately have "convert_int_to_float [- 32768] = [- (32769 / 32768)]"
    by (cases "convert_int_to_float [- 32768]") simp_all
  then show ?thesis by simp
qed

text \<open>
  What the function does on any signed 16-bit sample \<open>s\<close>: the value is the float32
  nearest to \<open>s / 32767\<close> (within a relative error of \<open>2\<^sup>-\<^sup>2\<^sup>4\<close>), and it lies in
  \<open>[-1, 1]\<close> for every sample other than \<open>-32768\<close>.
\<close>

lemma convert_int_to_float_sample:
  assumes "k < length data" and "- 32768 \<le> data ! k" and "data ! k \<le> 32767"
  shows "convert_int_to_float data ! k = f32_round (of_int (data ! k) / 32767) \<and>
         \<bar>convert_int_to_float data ! k - of_int (data ! k) / 32767\<bar>
            \<le> \<bar>of_int (data ! k) / 32767\<bar> / 2 ^ 24 \<and>
         (data ! k \<noteq> - 32768 \<longrightarrow>
            - 1 \<le> convert_int_to_float data ! k \<and> convert_int_to_float data ! k \<le> 1) \<and>
         (data ! k = - 32768 \<longrightarrow> convert_int_to_float data ! k = - (32769 / 32768))"
proof -
  define s where "s = data ! k"
  define q :: rat where "q = of_int s / 32767"
  have v: "convert_int_to_float data ! k = f32_round q"
    using assms by (simp add: convert_int_to_float_nth q_def s_def)
  have err: "\<bar>f32_round q - q\<bar> \<le> \<bar>q\<bar> / 2 ^ 24"
  proof (cases "s = 0")
    case True
    then show ?thesis by (simp add: q_def f32_round_def fl_round_def)
  next
    case False
    then have "1 \<le> \<bar>s\<bar>" by simp
    then have "(1 :: rat) \<le> of_int \<bar>s\<bar>" by (simp only: of_int_1_le_iff)
    then have "1 / 32767 \<le> \<bar>q\<bar>"
      by (simp add: q_def)
    moreover have "pow2 (- 126) \<le> 1 / 32767"
      by (simp add: pow2_def)
    ultimately have "pow2 (- 126) \<le> \<bar>q\<bar>" by simp
    then show ?thesis by (rule f32_round_relative_error)
  qed
  have unit: "- 1 \<le> f32_round q \<and> f32_round q \<le> 1" if "s \<noteq> - 32768"
  proof -
    from that assms(2,3) have "\<bar>s\<bar> \<le> 32767" by (simp add: s_def)
    then have "(of_int \<bar>s\<bar> :: rat) \<le> of_int 32767" by (simp only: of_int_le_iff)
    then have "\<bar>q\<bar> \<le> 1" by (simp add: q_def)
    then have "\<bar>f32_round q\<bar> \<le> 1" by (rule f32_round_unit)
    then show ?thesis by (simp add: abs_le_iff)
  qed
  have low: "f32_round q = - (32769 / 32768)" if "s = - 32768"
    using that by (simp add: q_def f32_round_min_quotient)
  show ?thesis
    using v err unit low by (simp add: q_def s_def)
qed

subsection \<open>The scan, file by file\<close>

lemma read_measurement_Inr:
  "read_measurement fs p name = Inr (a, enc) \<longleftrightarrow>
     (\<exists>raw g. fs p = Some (File raw) \<and> findall_0 name = Inr g \<and> decode raw = Inr enc \<and>
        py_int g = Inr a)"
  by (auto simp: read_measurement_def open_rb_def split: sum.splits option.splits node.splits)

lemma read_measurement_azimuth:
  "read_measurement fs p name = Inr (a, enc) \<Longrightarrow>
   read_measurement fs p' name = Inr (a', enc') \<Longrightarrow> a' = a"
  by (auto simp: read_measurement_Inr)

lemma scan_file_skip:
  "\<not> isfile fs (path_join d name) \<Longrightarrow> scan_file fs i d name acc = Inr acc"
  by (simp add: scan_file_def)

lemma scan_file_other:
  "isfile fs (path_join d name) \<Longrightarrow> \<not> startswith name ''L'' \<Longrightarrow>
   scan_file fs i d name acc =
     (case read_measurement fs (path_join d name) name of
        Inl e \<Rightarrow> Inl e
      | Inr m \<Rightarrow> Inr acc)"
  by (simp add: scan_file_def split: sum.splits prod.splits)

lemma scan_file_left:
  "isfile fs (path_join d name) \<Longrightarrow> startswith name ''L'' \<Longrightarrow>
   scan_file fs i d name acc =
     (case read_measurement fs (path_join d name) name of
        Inl e \<Rightarrow> Inl e
      | Inr (a, enc) \<Rightarrow>
          (case read_measurement fs (path_join d (replace_L_R name)) name of
             Inl e \<Rightarrow> Inl e
           | Inr (a2, enc2) \<Rightarrow> Inr (acc @ pair_of i a enc enc2)))"
  by (auto simp: scan_file_def pair_of_def split: sum.splits prod.splits
      dest: read_measurement_azimuth)

lemma scan_file_acc:
  "scan_file fs i d name acc =
     (case scan_file fs i d name [] of Inl e \<Rightarrow> Inl e | Inr es \<Rightarrow> Inr (acc @ es))"
proof (cases "isfile fs (path_join d name)")
  case False
  then show ?thesis by (simp add: scan_file_skip)
next
  case True
  then show ?thesis
    by (cases "startswith name ''L''")
      (simp_all add: scan_file_left scan_file_other split: sum.splits prod.splits)
qed

lemma scan_file_Inr_cases:
  assumes "scan_file fs i d name [] = Inr es"
  shows "es = [] \<or>
    (\<exists>a enc enc2. isfile fs (path_join d name) \<and> startswith name ''L'' \<and>
       read_measurement fs (path_join d name) name = Inr (a, enc) \<and>
       read_measurement fs (path_join d (replace_L_R name)) name = Inr (a, enc2) \<and>
       es = pair_of i a enc enc2)"
proof (cases "isfile fs (path_join d name)")
  case False
  with assms show ?thesis by (simp add: scan_file_skip)
next
  case True
  show ?thesis
  proof (cases "startswith name ''L''")
    case False
    with True assms show ?thesis
      by (auto simp: scan_file_other split: sum.splits)
  next
    case l: True
    with True assms show ?thesis
      by (auto simp: scan_file_left split: sum.splits prod.splits dest: read_measurement_azimuth)
  qed
qed

lemma scan_files_acc:
  "scan_files fs i d names acc =
     (case scan_files fs i d names [] of Inl e \<Rightarrow> Inl e | Inr es \<Rightarrow> Inr (acc @ es))"
proof (induction names arbitrary: acc)
  case Nil
  then show ?case by simp
next
  case (Cons n ns)
  show ?case
  proof (cases "scan_file fs i d n []")
    case (Inl e)
    then show ?thesis by (simp add: scan_file_acc [of fs i d n acc])
  next
    case (Inr es)
    then show ?thesis
      using Cons.IH [of "acc @ es"] Cons.IH [of es]
      by (simp add: scan_file_acc [of fs i d n acc] split: sum.splits)
  qed
qed

lemma scan_files_Inr:
  "scan_files fs i d names [] = Inr out \<Longrightarrow>
     \<exists>ess. list_all2 (\<lambda>n es. scan_file fs i d n [] = Inr es) names ess \<and> out = concat ess"
proof (induction names arbitrary: out)
  case Nil
  then show ?case by simp
next
  case (Cons n ns)
  from Cons.prems obtain es where es: "scan_file fs i d n [] = Inr es"
    by (cases "scan_file fs i d n []") simp_all
  with Cons.prems have "scan_files fs i d ns es = Inr out" by simp
  then obtain out' where out': "scan_files fs i d ns [] = Inr out'" "out = es @ out'"
    by (subst (asm) scan_files_acc) (auto split: sum.splits)
  from Cons.IH [OF out'(1)] obtain ess
    where "list_all2 (\<lambda>n es. scan_file fs i d n [] = Inr es) ns ess" "out' = concat ess"
    by blast
  with es out'(2)
  have "list_all2 (\<lambda>n es. scan_file fs i d n [] = Inr es) (n # ns) (es # ess) \<and>
        out = concat (es # ess)"
    by simp
  then show ?case by blast
qed

lemma scan_folder_acc:
  "scan_folder fs i acc =
     (case scan_folder fs i [] of Inl e \<Rightarrow> Inl e | Inr es \<Rightarrow> Inr (acc @ es))"
  using scan_files_acc [of fs i "folder_of i" _ acc]
  by (simp add: scan_folder_def split: sum.splits)

lemma scan_folder_Inr:
  "scan_folder fs i [] = Inr out \<Longrightarrow>
     \<exists>names ess. fs (folder_of i) = Some (Dir names) \<and>
       list_all2 (\<lambda>n es. scan_file fs i (folder_of i) n [] = Inr es) names ess \<and>
       out = concat ess"
  by (auto simp: scan_folder_def listdir_def split: sum.splits option.splits node.splits
      dest: scan_files_Inr)

lemma scan_folders_acc:
  "scan_folders fs ns acc =
     (case scan_folders fs ns [] of Inl e \<Rightarrow> Inl e | Inr es \<Rightarrow> Inr (acc @ es))"
proof (induction ns arbitrary: acc)
  case Nil
  then show ?case by simp
next
  case (Cons n ns)
  show ?case
  proof (cases "scan_folder fs n []")
    case (Inl e)
    then show ?thesis by (simp add: scan_folder_acc [of fs n acc])
  next
    case (Inr es)
    then show ?thesis
      using Cons.IH [of "acc @ es"] Cons.IH [of es]
      by (simp add: scan_folder_acc [of fs n acc] split: sum.splits)
  qed
qed

lemma scan_folders_Inr:
  "scan_folders fs ns [] = Inr out \<Longrightarrow>
     \<exists>ess. list_all2 (\<lambda>i es. scan_folder fs i [] = Inr es) ns ess \<and> out = concat ess"
proof (induction ns arbitrary: out)
  case Nil
  then show ?case by simp
next
  case (Cons n ns)
  from Cons.prems obtain es where es: "scan_folder fs n [] = Inr es"
    by (cases "scan_folder fs n []") simp_all
  with Cons.prems have "scan_folders fs ns es = Inr out" by simp
  then obtain out' where out': "scan_folders fs ns [] = Inr out'" "out = es @ out'"
    by (subst (asm) scan_folders_acc) (auto split: sum.splits)
  from Cons.IH [OF out'(1)] obtain ess
    where "list_all2 (\<lambda>i es. scan_folder fs i [] = Inr es) ns ess" "out' = concat ess"
    by blast
  with es out'(2)
  have "list_all2 (\<lambda>i es. scan_folder fs i [] = Inr es) (n # ns) (es # ess) \<and>
        out = concat (es # ess)"
    by simp
  then show ?case by blast
qed

text \<open>A property of every file's entries is a property of the whole list.\<close>

lemma list_all2_concat_set:
  "list_all2 R xs yss \<Longrightarrow> r \<in> set (concat yss) \<Longrightarrow>
   \<exists>x ys. x \<in> set xs \<and> R x ys \<and> r \<in> set ys"
  by (induction xs yss rule: list_all2_induct) auto

lemma list_all2_left:
  "list_all2 R xs ys \<Longrightarrow> x \<in> set xs \<Longrightarrow> \<exists>y. y \<in> set ys \<and> R x y"
  by (induction xs ys rule: list_all2_induct) auto

lemma scan_entry_origin:
  assumes "scan fs = Inr out" and "r \<in> set out"
  shows "\<exists>i names name es. i \<in> set number_range \<and> fs (folder_of i) = Some (Dir names) \<and>
           name \<in> set names \<and> scan_file fs i (folder_of i) name [] = Inr es \<and> r \<in> set es"
proof -
  from assms(1) obtain ess where ess:
    "list_all2 (\<lambda>i es. scan_folder fs i [] = Inr es) number_range ess" "out = concat ess"
    unfolding scan_def by (blast dest: scan_folders_Inr)
  with assms(2) obtain i fes where i: "i \<in> set number_range" "scan_folder fs i [] = Inr fes"
      "r \<in> set fes"
    by (blast dest: list_all2_concat_set)
  from scan_folder_Inr [OF i(2)] obtain names ess' where n:
    "fs (folder_of i) = Some (Dir names)"
    "list_all2 (\<lambda>n es. scan_file fs i (folder_of i) n [] = Inr es) names ess'"
    "fes = concat ess'"
    by blast
  with i(3) obtain name es where "name \<in> set names"
      "scan_file fs i (folder_of i) name [] = Inr es" "r \<in> set es"
    by (blast dest: list_all2_concat_set)
  with i(1) n(1) show ?thesis by blast
qed

lemma scan_visits:
  assumes "scan fs = Inr out" and "i \<in> set number_range"
  shows "\<exists>names. fs (folder_of i) = Some (Dir names) \<and>
           (\<forall>name \<in> set names. \<exists>es. scan_file fs i (folder_of i) name [] = Inr es \<and>
              set es \<subseteq> set out)"
proof -
  from assms(1) obtain ess where ess:
    "list_all2 (\<lambda>i es. scan_folder fs i [] = Inr es) number_range ess" "out = concat ess"
    unfolding scan_def by (blast dest: scan_folders_Inr)
  with assms(2) obtain fes where f: "fes \<in> set ess" "scan_folder fs i [] = Inr fes"
    by (blast dest: list_all2_left)
  from scan_folder_Inr [OF f(2)] obtain names ess' where n:
    "fs (folder_of i) = Some (Dir names)"
    "list_all2 (\<lambda>n es. scan_file fs i (folder_of i) n [] = Inr es) names ess'"
    "fes = concat ess'"
    by blast
  have "\<exists>es. scan_file fs i (folder_of i) name [] = Inr es \<and> set es \<subseteq> set out"
    if "name \<in> set names" for name
  proof -
    from list_all2_left [OF n(2) that] obtain es where
      "es \<in> set ess'" "scan_file fs i (folder_of i) name [] = Inr es"
      by blast
    moreover from this(1) have "set es \<subseteq> set fes"
      by (auto simp: n(3))
    moreover from f(1) have "set fes \<subseteq> set out"
      by (auto simp: ess(2))
    ultimately show ?thesis by blast
  qed
  with n(1) show ?thesis by blast
qed

subsection \<open>Concrete runs\<close>

lemma number_range_eq:
  "number_range = [- 40, - 30, - 20, - 10, 0, 10, 20, 30, 40, 50, 60, 70, 80, 90]"
  unfolding number_range_def
  by (simp add: py_range.simps [of "- 40"] py_range.simps [of "- 30"] py_range.simps [of "- 20"]
      py_range.simps [of "- 10"] py_range.simps [of 0] py_range.simps [of 10]
      py_range.simps [of 20] py_range.simps [of 30] py_range.simps [of 40]
      py_range.simps [of 50] py_range.simps [of 60] py_range.simps [of 70]
      py_range.simps [of 80] py_range.simps [of 90] py_range.simps [of 100])

lemma str_nat_digit: "n < 10 \<Longrightarrow> str_nat n = [''0123456789'' ! n]"
  by (subst str_nat.simps) simp

lemma str_nat_tens: "10 \<le> n \<Longrightarrow> n < 100 \<Longrightarrow>
  str_nat n = [''0123456789'' ! (n div 10), ''0123456789'' ! (n mod 10)]"
  by (subst str_nat.simps) (simp add: str_nat_digit)

lemma folder_names:
  "map folder_of number_range =
     [''elev-40'', ''elev-30'', ''elev-20'', ''elev-10'', ''elev0'', ''elev10'', ''elev20'',
      ''elev30'', ''elev40'', ''elev50'', ''elev60'', ''elev70'', ''elev80'', ''elev90'']"
  by (simp add: number_range_eq folder_of_def str_def str_nat_digit str_nat_tens)

lemma empty_folders_eq:
  "empty_folders =
     [(''elev-40'', Dir []), (''elev-30'', Dir []), (''elev-20'', Dir []), (''elev-10'', Dir []),
      (''elev0'', Dir []), (''elev10'', Dir []), (''elev20'', Dir []), (''elev30'', Dir []),
      (''elev40'', Dir []), (''elev50'', Dir []), (''elev60'', Dir []), (''elev70'', Dir []),
      (''elev80'', Dir []), (''elev90'', Dir [])]"
  using folder_names by (simp add: empty_folders_def number_range_eq)

lemma folder_of_simps:
  "folder_of (- 40) = ''elev-40''" "folder_of (- 30) = ''elev-30''"
  "folder_of (- 20) = ''elev-20''" "folder_of (- 10) = ''elev-10''"
  "folder_of 0 = ''elev0''" "folder_of 10 = ''elev10''" "folder_of 20 = ''elev20''"
  "folder_of 30 = ''elev30''" "folder_of 40 = ''elev40''" "folder_of 50 = ''elev50''"
  "folder_of 60 = ''elev60''" "folder_of 70 = ''elev70''" "folder_of 80 = ''elev80''"
  "folder_of 90 = ''elev90''"
  using folder_names by (simp_all add: number_range_eq)

lemma scan_folder_empty: "fs (folder_of i) = Some (Dir []) \<Longrightarrow> scan_folder fs i acc = Inr acc"
  by (simp add: scan_folder_def listdir_def)

lemma samples_of_zeros: "samples_of (replicate (2 * n) 0) = replicate n 0"
  by (induction n) (simp_all add: int16_be_def)

lemma decode_zeros: "decode (replicate (2 * n) 0) = Inr (replicate n 0)"
  by (simp add: decode_eq samples_of_zeros)

lemma f32_round_0: "f32_round 0 = 0"
  by (simp add: f32_round_def fl_round_def)

lemma convert_zeros: "convert_int_to_float (replicate n 0) = replicate n 0"
  by (simp add: convert_int_to_float_def np_float32_def f32_div_def f32_round_0 f64_round_def
      fl_round_def)

lemma findall_0_le40a90: "findall_0 ''Le40a90.bin'' = Inr ''40''"
  by (simp add: findall_0_def)

lemma py_int_40: "py_int ''40'' = Inr 40"
  by (simp add: py_int_def strip_def is_space_def unsigned_def digit_of_def)

lemma scan_fs_le40a90:
  "scan fs_le40a90 =
     Inr [\<lparr>elevation = 40, azimuth = 40, samples = replicate 128 0\<rparr>,
          \<lparr>elevation = 40, azimuth = 40, samples = replicate 128 0\<rparr>]"
proof -
  have d: "decode (replicate 400 0) = Inr (replicate 200 0)"
    using decode_zeros [of 200] by simp
  have r: "read_measurement fs_le40a90 ''elev40/Le40a90.bin'' ''Le40a90.bin'' = Inr (40, replicate 200 0)"
     "read_measurement fs_le40a90 ''elev40/Re40a90.bin'' ''Le40a90.bin'' = Inr (40, replicate 200 0)"
    by (simp_all add: read_measurement_def open_rb_def fs_le40a90_def findall_0_le40a90 py_int_40 d)
  have w: "convert_int_to_float (window (replicate 200 0)) = replicate 128 0"
    by (simp add: window_def sample_size_def convert_zeros)
  have p: "path_join ''elev40'' ''Le40a90.bin'' = ''elev40/Le40a90.bin''"
      "path_join ''elev40'' ''Re40a90.bin'' = ''elev40/Re40a90.bin''"
    by (simp_all add: path_join_def)
  have f: "isfile fs_le40a90 ''elev40/Le40a90.bin''" "isfile fs_le40a90 ''elev40/Re40a90.bin''"
      "startswith ''Le40a90.bin'' ''L''" "\<not> startswith ''Re40a90.bin'' ''L''"
    by (simp_all add: isfile_def fs_le40a90_def startswith_def)
  have l: "scan_file fs_le40a90 40 ''elev40'' ''Le40a90.bin'' [] =
      Inr [\<lparr>elevation = 40, azimuth = 40, samples = replicate 128 0\<rparr>,
           \<lparr>elevation = 40, azimuth = 40, samples = replicate 128 0\<rparr>]"
    using f by (simp add: scan_file_left p r pair_of_def w)
  have r2: "read_measurement fs_le40a90 ''elev40/Re40a90.bin'' ''Re40a90.bin'' = Inr (40, replicate 200 0)"
    by (simp add: read_measurement_def open_rb_def fs_le40a90_def findall_0_def py_int_40 d)
  have rr: "scan_file fs_le40a90 40 ''elev40'' ''Re40a90.bin'' acc = Inr acc" for acc
    using f by (simp add: scan_file_other p r2)
  have e: "scan_folder fs_le40a90 i acc = Inr acc"
    if "i \<in> {- 40, - 30, - 20, - 10, 0, 10, 20, 30, 50, 60, 70, 80, 90}" for i acc
    using that by (intro scan_folder_empty) (auto simp: fs_le40a90_def empty_folders_eq folder_of_simps)
  have m: "scan_folder fs_le40a90 40 [] =
      Inr [\<lparr>elevation = 40, azimuth = 40, samples = replicate 128 0\<rparr>,
           \<lparr>elevation = 40, azimuth = 40, samples = replicate 128 0\<rparr>]"
  proof -
    have "fs_le40a90 ''elev40'' = Some (Dir [''Le40a90.bin'', ''Re40a90.bin''])"
      by (simp add: fs_le40a90_def)
    then show ?thesis
      by (simp add: scan_folder_def listdir_def folder_of_simps l rr)
  qed
  show ?thesis
    by (simp add: scan_def number_range_eq e m)
qed

lemma convert_int_to_float_eq:
  assumes "\<forall>s \<in> set xs. - 32768 \<le> s \<and> s \<le> 32767"
  shows "convert_int_to_float xs = map (\<lambda>s. f32_round (of_int s / 32767)) xs"
proof -
  have "np_float32 int16_max = 32767"
    using np_float32_exact [of int16_max] by (simp add: int16_max_def)
  moreover have "np_float32 s = of_int s" if "s \<in> set xs" for s
    using assms that by (intro np_float32_exact) auto
  ultimately show ?thesis
    by (simp add: convert_int_to_float_def f32_div_def)
qed

lemma window_set: "set (window enc) \<subseteq> set enc"
  unfolding window_def by (meson set_drop_subset set_take_subset subset_trans)

lemma number_range_40: "40 \<in> set number_range"
  by (simp add: number_range_eq)

text \<open>
  C1, as stated: the file \<open>Le40a90.bin\<close> gives a record with azimuth 90. The pattern
  \<open>e(.*?)a\<close> matches at the first \<open>e\<close> and captures up to the next \<open>a\<close>, which is
  \<open>40\<close> in this name, so the azimuth of both of its records is 40.
\<close>

theorem scan_Le40a90_counterexample:
  "scan fs_le40a90 =
     Inr [\<lparr>elevation = 40, azimuth = 40, samples = replicate 128 0\<rparr>,
          \<lparr>elevation = 40, azimuth = 40, samples = replicate 128 0\<rparr>] \<and>
   findall ''Le40a90.bin'' = [''40''] \<and>
   map azimuth (projr (scan fs_le40a90)) = [40, 40] \<and>
   90 \<notin> set (map azimuth (projr (scan fs_le40a90)))"
  by (simp add: scan_fs_le40a90)

text \<open>
  C1, amended: in a run whose scan completes, the file \<open>Le40a90.bin\<close> of the folder
  \<open>elev40\<close> with 200 samples gives a record with elevation 40, azimuth 40 and the
  samples 40 to 167, each divided by 32767 in float32.
\<close>

theorem scan_Le40a90:
  assumes "scan fs = Inr out"
    and "fs ''elev40'' = Some (Dir names)" and "''Le40a90.bin'' \<in> set names"
    and "fs ''elev40/Le40a90.bin'' = Some (File raw)" and "length raw = 400"
  shows "\<exists>enc. decode raw = Inr enc \<and> length enc = 200 \<and>
           \<lparr>elevation = 40, azimuth = 40,
             samples = map (\<lambda>s. f32_round (of_int s / 32767)) (take 128 (drop 40 enc))\<rparr>
             \<in> set out"
proof -
  from scan_visits [OF assms(1) number_range_40] assms(2,3)
  obtain es where es: "scan_file fs 40 ''elev40'' ''Le40a90.bin'' [] = Inr es" "set es \<subseteq> set out"
    by (auto simp: folder_of_simps)
  have p: "path_join ''elev40'' ''Le40a90.bin'' = ''elev40/Le40a90.bin''"
    by (simp add: path_join_def)
  have f: "isfile fs ''elev40/Le40a90.bin''" "startswith ''Le40a90.bin'' ''L''"
    using assms(4) by (simp_all add: isfile_def startswith_def)
  from es(1) f obtain a enc enc2 where
    r: "read_measurement fs ''elev40/Le40a90.bin'' ''Le40a90.bin'' = Inr (a, enc)"
    and e: "es = pair_of 40 a enc enc2"
    by (auto simp: scan_file_left p split: sum.splits prod.splits)
  from r assms(4) have d: "decode raw = Inr enc" and a: "a = 40"
    by (auto simp: read_measurement_Inr findall_0_le40a90 py_int_40)
  from d assms(5) have len: "length enc = 200"
    using length_samples_of [of raw] by (auto simp: decode_eq split: if_splits)
  have "\<forall>s \<in> set (window enc). - 32768 \<le> s \<and> s \<le> 32767"
    using decode_range [OF d] window_set [of enc] by blast
  then have "convert_int_to_float (window enc) =
      map (\<lambda>s. f32_round (of_int s / 32767)) (take 128 (drop 40 enc))"
    by (simp add: convert_int_to_float_eq) (simp add: window_def sample_size_def)
  with e a es(2) have "\<lparr>elevation = 40, azimuth = 40,
      samples = map (\<lambda>s. f32_round (of_int s / 32767)) (take 128 (drop 40 enc))\<rparr> \<in> set out"
    by (auto simp: pair_of_def)
  with d len show ?thesis by blast
qed

theorem scan_Le40a90_witness:
  "scan fs_le40a90 =
     Inr [\<lparr>elevation = 40, azimuth = 40, samples = replicate 128 0\<rparr>,
          \<lparr>elevation = 40, azimuth = 40, samples = replicate 128 0\<rparr>] \<and>
   fs_le40a90 ''elev40'' = Some (Dir [''Le40a90.bin'', ''Re40a90.bin'']) \<and>
   ''Le40a90.bin'' \<in> set [''Le40a90.bin'', ''Re40a90.bin''] \<and>
   fs_le40a90 ''elev40/Le40a90.bin'' = Some (File (replicate 400 0)) \<and>
   length (replicate 400 (0 :: byte)) = 400 \<and>
   (\<exists>enc. decode (replicate 400 0) = Inr enc \<and> length enc = 200 \<and>
      \<lparr>elevation = 40, azimuth = 40,
        samples = map (\<lambda>s. f32_round (of_int s / 32767)) (take 128 (drop 40 enc))\<rparr>
        \<in> set [\<lparr>elevation = 40, azimuth = 40, samples = replicate 128 0\<rparr>,
                \<lparr>elevation = 40, azimuth = 40, samples = replicate 128 0\<rparr>])"
proof -
  have h: "fs_le40a90 ''elev40'' = Some (Dir [''Le40a90.bin'', ''Re40a90.bin''])"
    "''Le40a90.bin'' \<in> set [''Le40a90.bin'', ''Re40a90.bin'']"
    "fs_le40a90 ''elev40/Le40a90.bin'' = Some (File (replicate 400 0))"
    "length (replicate 400 (0 :: byte)) = 400"
    by (simp_all add: fs_le40a90_def)
  from scan_Le40a90 [OF scan_fs_le40a90 h] scan_fs_le40a90 h show ?thesis
    by simp
qed

lemma scan_first_folder:
  assumes "\<forall>j \<in> set number_range. j \<noteq> - 40 \<longrightarrow> fs (folder_of j) = Some (Dir [])"
  shows "scan fs = scan_folder fs (- 40) []"
proof (cases "scan_folder fs (- 40) []")
  case (Inl e)
  then show ?thesis by (simp add: scan_def number_range_eq)
next
  case (Inr es)
  have "scan_folder fs j acc = Inr acc"
    if "j \<in> {- 30, - 20, - 10, 0, 10, 20, 30, 40, 50, 60, 70, 80, 90}" for j acc
    using that assms by (intro scan_folder_empty) (auto simp: number_range_eq)
  with Inr show ?thesis by (simp add: scan_def number_range_eq)
qed

lemma scan_one_file:
  assumes "\<forall>j \<in> set number_range. j \<noteq> - 40 \<longrightarrow> fs (folder_of j) = Some (Dir [])"
    and "fs ''elev-40'' = Some (Dir [name])"
  shows "scan fs = scan_file fs (- 40) ''elev-40'' name []"
  using assms(2)
  by (simp add: scan_first_folder [OF assms(1)] scan_folder_def listdir_def folder_of_simps
      split: sum.splits)

lemma path_join_elev: "name \<noteq> [] \<Longrightarrow> hd name \<noteq> CHR ''/'' \<Longrightarrow>
  path_join ''elev-40'' name = ''elev-40/'' @ name"
  by (simp add: path_join_def)

text \<open>
  C3, as stated: a regular file whose name does not start with \<open>L\<close> is never read or
  decoded. It fails for a folder that holds one file \<open>R0e000a.dat\<close> of a single byte:
  the script opens it, matches the pattern, and the decoding loop raises on the
  one-byte chunk, which ends the run.
\<close>

theorem scan_file_other_counterexample:
  "isfile fs_odd_right ''elev-40/R0e000a.dat'' \<and> \<not> startswith ''R0e000a.dat'' ''L'' \<and>
   scan_file fs_odd_right (- 40) ''elev-40'' ''R0e000a.dat'' [] = Inl StructError \<and>
   scan fs_odd_right = Inl StructError \<and> scan fs_odd_right \<noteq> Inr []"
proof -
  have e: "\<forall>j \<in> set number_range. j \<noteq> - 40 \<longrightarrow> fs_odd_right (folder_of j) = Some (Dir [])"
    by (simp add: number_range_eq folder_of_simps fs_odd_right_def fs_one_def empty_folders_eq)
  have d: "fs_odd_right ''elev-40'' = Some (Dir [''R0e000a.dat''])"
    by (simp add: fs_odd_right_def fs_one_def)
  have f: "isfile fs_odd_right ''elev-40/R0e000a.dat''" "\<not> startswith ''R0e000a.dat'' ''L''"
    by (simp_all add: isfile_def fs_odd_right_def fs_one_def startswith_def)
  have "read_measurement fs_odd_right ''elev-40/R0e000a.dat'' ''R0e000a.dat'' = Inl StructError"
    by (simp add: read_measurement_def open_rb_def fs_odd_right_def fs_one_def findall_0_def decode_eq)
  with f have "scan_file fs_odd_right (- 40) ''elev-40'' ''R0e000a.dat'' [] = Inl StructError"
    by (simp add: scan_file_other path_join_elev)
  with f scan_one_file [OF e d] show ?thesis by simp
qed

text \<open>
  C3, amended: a regular file whose name (of ASCII characters) does not start with
  \<open>L\<close> adds no record, but it is opened, matched against the pattern and decoded
  like any other: the step raises when the name has no match, when the content has an
  odd number of bytes, or when the match is not an integer, and otherwise leaves the
  list as it was.
\<close>

theorem scan_file_other_read:
  assumes "fs (path_join d name) = Some (File raw)" and "\<not> startswith name ''L''"
    and "ascii_name name"
  shows "scan_file fs i d name acc =
     (if findall name = [] then Inl IndexError
      else if odd (length raw) then Inl StructError
      else case py_int (hd (findall name)) of Inl e \<Rightarrow> Inl e | Inr a \<Rightarrow> Inr acc)"
proof -
  have "isfile fs (path_join d name)"
    using assms(1) by (simp add: isfile_def)
  then have "scan_file fs i d name acc =
     (case read_measurement fs (path_join d name) name of Inl e \<Rightarrow> Inl e | Inr m \<Rightarrow> Inr acc)"
    using assms(2) by (rule scan_file_other)
  also have "\<dots> = (if findall name = [] then Inl IndexError
      else if odd (length raw) then Inl StructError
      else case py_int (hd (findall name)) of Inl e \<Rightarrow> Inl e | Inr a \<Rightarrow> Inr acc)"
    using assms(1)
    by (cases "findall name")
      (simp_all add: read_measurement_def open_rb_def findall_0_def decode_eq split: sum.splits)
  finally show ?thesis .
qed

theorem scan_file_other_read_witness:
  "fs_odd_right (path_join ''elev-40'' ''R0e000a.dat'') = Some (File [0x00]) \<and>
   \<not> startswith ''R0e000a.dat'' ''L'' \<and> ascii_name ''R0e000a.dat'' \<and>
   scan_file fs_odd_right (- 40) ''elev-40'' ''R0e000a.dat'' [] = Inl StructError"
proof -
  have h: "fs_odd_right (path_join ''elev-40'' ''R0e000a.dat'') = Some (File [0x00])"
    "\<not> startswith ''R0e000a.dat'' ''L''" "ascii_name ''R0e000a.dat''"
    by (simp_all add: path_join_elev fs_odd_right_def fs_one_def startswith_def ascii_name_def)
  from h scan_file_other_read [where fs = fs_odd_right and d = "''elev-40''"
      and name = "''R0e000a.dat''" and raw = "[0x00]" and i = "- 40" and acc = "[]"]
  show ?thesis
    by simp
qed

subsection \<open>Pairs of entries\<close>

lemma pairs_append: "pairs P xs \<Longrightarrow> pairs P ys \<Longrightarrow> pairs P (xs @ ys)"
  by (induction P xs rule: pairs.induct) auto

lemma pairs_concat: "(\<forall>xs \<in> set xss. pairs P xs) \<Longrightarrow> pairs P (concat xss)"
  by (induction xss) (auto intro: pairs_append)

lemma pairs_even: "pairs P xs \<Longrightarrow> even (length xs)"
  by (induction P xs rule: pairs.induct) auto

lemma pairs_nth:
  "pairs P xs \<Longrightarrow> 2 * k + 1 < length xs \<Longrightarrow> P (xs ! (2 * k)) (xs ! (2 * k + 1))"
proof (induction P xs arbitrary: k rule: pairs.induct)
  case (3 P l r xs)
  then show ?case by (cases k) simp_all
qed simp_all

lemma list_all2_right:
  "list_all2 R xs ys \<Longrightarrow> y \<in> set ys \<Longrightarrow> \<exists>x. x \<in> set xs \<and> R x y"
  by (induction xs ys rule: list_all2_induct) auto

lemma scan_pairs:
  assumes "scan fs = Inr out"
  shows "pairs (pair_from fs) out"
proof -
  from assms obtain ess where ess:
    "list_all2 (\<lambda>i es. scan_folder fs i [] = Inr es) number_range ess" "out = concat ess"
    unfolding scan_def by (blast dest: scan_folders_Inr)
  have "pairs (pair_from fs) fes" if "fes \<in> set ess" for fes
  proof -
    from list_all2_right [OF ess(1) that] obtain i where
      i: "i \<in> set number_range" "scan_folder fs i [] = Inr fes"
      by blast
    from scan_folder_Inr [OF i(2)] obtain names ess' where n:
      "fs (folder_of i) = Some (Dir names)"
      "list_all2 (\<lambda>n es. scan_file fs i (folder_of i) n [] = Inr es) names ess'"
      "fes = concat ess'"
      by blast
    have "pairs (pair_from fs) es" if "es \<in> set ess'" for es
    proof -
      from list_all2_right [OF n(2) that] obtain name where
        name: "name \<in> set names" "scan_file fs i (folder_of i) name [] = Inr es"
        by blast
      from scan_file_Inr_cases [OF name(2)] show ?thesis
      proof
        assume "es = []"
        then show ?thesis by simp
      next
        assume "\<exists>a enc enc2. isfile fs (path_join (folder_of i) name) \<and>
          startswith name ''L'' \<and>
          read_measurement fs (path_join (folder_of i) name) name = Inr (a, enc) \<and>
          read_measurement fs (path_join (folder_of i) (replace_L_R name)) name = Inr (a, enc2) \<and>
          es = pair_of i a enc enc2"
        then obtain a enc enc2 where
          "startswith name ''L''"
          "read_measurement fs (path_join (folder_of i) name) name = Inr (a, enc)"
          "read_measurement fs (path_join (folder_of i) (replace_L_R name)) name = Inr (a, enc2)"
          "es = pair_of i a enc enc2"
          by blast
        with i(1) n(1) name(1) show ?thesis
          unfolding pair_of_def pair_from_def by (simp only: pairs.simps) blast
      qed
    qed
    then show ?thesis unfolding n(3) by (intro pairs_concat) blast
  qed
  then show ?thesis unfolding ess(2) by (intro pairs_concat) blast
qed

text \<open>
  C10: in a completed scan the entries come in consecutive pairs; the two entries of a
  pair have the same elevation (the folder's) and the same azimuth, which is the
  integer matched in the name of the left-channel file.
\<close>

theorem scan_pairs_share_position:
  assumes "scan fs = Inr out"
  shows "even (length out) \<and>
    (\<forall>k. 2 * k + 1 < length out \<longrightarrow>
       elevation (out ! (2 * k + 1)) = elevation (out ! (2 * k)) \<and>
       azimuth (out ! (2 * k + 1)) = azimuth (out ! (2 * k)) \<and>
       (\<exists>names name g.
          fs (folder_of (elevation (out ! (2 * k)))) = Some (Dir names) \<and> name \<in> set names \<and>
          startswith name ''L'' \<and> findall_0 name = Inr g \<and>
          py_int g = Inr (azimuth (out ! (2 * k + 1)))))"
proof (intro conjI allI impI)
  show "even (length out)"
    using scan_pairs [OF assms] by (rule pairs_even)
next
  fix k
  assume "2 * k + 1 < length out"
  with scan_pairs [OF assms] have p: "pair_from fs (out ! (2 * k)) (out ! (2 * k + 1))"
    by (rule pairs_nth)
  then show "elevation (out ! (2 * k + 1)) = elevation (out ! (2 * k))"
    and "azimuth (out ! (2 * k + 1)) = azimuth (out ! (2 * k))"
    by (auto simp: pair_from_def)
  from p obtain i names name a enc enc2 where o:
    "fs (folder_of i) = Some (Dir names)" "name \<in> set names" "startswith name ''L''"
    "read_measurement fs (path_join (folder_of i) name) name = Inr (a, enc)"
    "out ! (2 * k) = \<lparr>elevation = i, azimuth = a, samples = convert_int_to_float (window enc)\<rparr>"
    "out ! (2 * k + 1) = \<lparr>elevation = i, azimuth = a, samples = convert_int_to_float (window enc2)\<rparr>"
    unfolding pair_from_def by blast
  from o(4) obtain g where "findall_0 name = Inr g" "py_int g = Inr a"
    by (auto simp: read_measurement_Inr)
  with o show "\<exists>names name g.
      fs (folder_of (elevation (out ! (2 * k)))) = Some (Dir names) \<and> name \<in> set names \<and>
      startswith name ''L'' \<and> findall_0 name = Inr g \<and>
      py_int g = Inr (azimuth (out ! (2 * k + 1)))"
    by auto
qed

theorem scan_pairs_share_position_witness:
  "scan fs_le40a90 =
     Inr [\<lparr>elevation = 40, azimuth = 40, samples = replicate 128 0\<rparr>,
          \<lparr>elevation = 40, azimuth = 40, samples = replicate 128 0\<rparr>] \<and>
   2 * 0 + 1 < length [\<lparr>elevation = 40, azimuth = 40, samples = replicate 128 (0 :: rat)\<rparr>,
          \<lparr>elevation = 40, azimuth = 40, samples = replicate 128 0\<rparr>] \<and>
   (\<exists>names name g.
       fs_le40a90 (folder_of 40) = Some (Dir names) \<and> name \<in> set names \<and>
       startswith name ''L'' \<and> findall_0 name = Inr g \<and> py_int g = Inr 40)"
proof -
  from scan_pairs_share_position [OF scan_fs_le40a90]
  have "\<exists>names name g.
      fs_le40a90 (folder_of (elevation ([\<lparr>elevation = 40, azimuth = 40, samples = replicate 128 0\<rparr>,
          \<lparr>elevation = 40, azimuth = 40, samples = replicate 128 0\<rparr>] ! (2 * 0)))) = Some (Dir names) \<and>
      name \<in> set names \<and> startswith name ''L'' \<and> findall_0 name = Inr g \<and>
      py_int g = Inr (azimuth ([\<lparr>elevation = 40, azimuth = 40, samples = replicate 128 0\<rparr>,
          \<lparr>elevation = 40, azimuth = 40, samples = replicate 128 0\<rparr>] ! (2 * 0 + 1)))"
    by (elim conjE allE [of _ 0]) simp
  then show ?thesis
    using scan_fs_le40a90 by simp
qed

subsection \<open>Failures of the scan\<close>

lemma scan_file_fails:
  assumes "i \<in> set number_range" and "fs (folder_of i) = Some (Dir names)"
    and "name \<in> set names" and "scan_file fs i (folder_of i) name [] = Inl e"
  shows "\<exists>e'. scan fs = Inl e'"
proof (cases "scan fs")
  case (Inl e')
  then show ?thesis by blast
next
  case (Inr out)
  from scan_visits [OF Inr assms(1)] assms(2,3,4) show ?thesis by auto
qed

lemma scan_folder_fails:
  assumes "i \<in> set number_range" and "\<forall>names. fs (folder_of i) \<noteq> Some (Dir names)"
  shows "\<exists>e'. scan fs = Inl e'"
proof (cases "scan fs")
  case (Inl e')
  then show ?thesis by blast
next
  case (Inr out)
  from scan_visits [OF Inr assms(1)] assms(2) show ?thesis by auto
qed

lemma read_measurement_missing:
  "fs p = None \<Longrightarrow> read_measurement fs p name = Inl FileNotFoundError"
  by (simp add: read_measurement_def open_rb_def)

lemma replace_L_R_startswith:
  "startswith name ''L'' \<Longrightarrow> replace_L_R name = CHR ''R'' # tl name"
  by (cases name) (simp_all add: startswith_def)

lemma fs_nopair_read:
  "read_measurement fs_nopair (path_join ''elev-40'' ''L0e000a.dat'') ''L0e000a.dat'' = Inr (0, [])"
  by (simp add: read_measurement_def open_rb_def path_join_elev fs_nopair_def fs_one_def
      findall_0_def decode_eq py_int_def strip_def is_space_def unsigned_def digit_of_def)

text \<open>
  C7: once a left-channel file has been read and decoded, its counterpart is the name
  with the leading \<open>L\<close> replaced by \<open>R\<close>, in the same folder; when no such path
  exists the step raises \<open>FileNotFoundError\<close> and the scan fails; when the step
  succeeds it appends exactly the left entry followed by the right entry.
\<close>

theorem left_file_pairing:
  assumes "isfile fs (path_join d name)" and "startswith name ''L''"
    and "read_measurement fs (path_join d name) name = Inr (a, enc)"
  shows "replace_L_R name = CHR ''R'' # tl name \<and>
    (fs (path_join d (replace_L_R name)) = None \<longrightarrow>
       scan_file fs i d name acc = Inl FileNotFoundError \<and>
       (i \<in> set number_range \<and> d = folder_of i \<and> (\<exists>names. fs d = Some (Dir names) \<and>
          name \<in> set names) \<longrightarrow> (\<exists>e. scan fs = Inl e))) \<and>
    (\<forall>out. scan_file fs i d name acc = Inr out \<longrightarrow>
       (\<exists>raw2 enc2. fs (path_join d (replace_L_R name)) = Some (File raw2) \<and>
          decode raw2 = Inr enc2 \<and>
          out = acc @
            [\<lparr>elevation = i, azimuth = a, samples = convert_int_to_float (window enc)\<rparr>,
             \<lparr>elevation = i, azimuth = a, samples = convert_int_to_float (window enc2)\<rparr>]))"
proof (intro conjI impI allI)
  show "replace_L_R name = CHR ''R'' # tl name"
    using assms(2) by (rule replace_L_R_startswith)
next
  assume "fs (path_join d (replace_L_R name)) = None"
  then show "scan_file fs i d name acc = Inl FileNotFoundError"
    using assms by (simp add: scan_file_left read_measurement_missing)
next
  assume m: "fs (path_join d (replace_L_R name)) = None"
    and "i \<in> set number_range \<and> d = folder_of i \<and>
         (\<exists>names. fs d = Some (Dir names) \<and> name \<in> set names)"
  then obtain names where n: "i \<in> set number_range" "d = folder_of i"
    "fs (folder_of i) = Some (Dir names)" "name \<in> set names"
    by blast
  have "scan_file fs i (folder_of i) name [] = Inl FileNotFoundError"
    using assms m n(2) by (simp add: scan_file_left read_measurement_missing)
  with n show "\<exists>e. scan fs = Inl e"
    by (blast intro: scan_file_fails)
next
  fix out
  assume "scan_file fs i d name acc = Inr out"
  with assms obtain a2 enc2 where
    r: "read_measurement fs (path_join d (replace_L_R name)) name = Inr (a2, enc2)"
    and o: "out = acc @ pair_of i a enc enc2"
    by (auto simp: scan_file_left split: sum.splits prod.splits)
  from r obtain raw2 where "fs (path_join d (replace_L_R name)) = Some (File raw2)"
    "decode raw2 = Inr enc2"
    by (auto simp: read_measurement_Inr)
  with o show "\<exists>raw2 enc2. fs (path_join d (replace_L_R name)) = Some (File raw2) \<and>
      decode raw2 = Inr enc2 \<and>
      out = acc @
        [\<lparr>elevation = i, azimuth = a, samples = convert_int_to_float (window enc)\<rparr>,
         \<lparr>elevation = i, azimuth = a, samples = convert_int_to_float (window enc2)\<rparr>]"
    by (auto simp: pair_of_def)
qed

lemma fs_le40a90_read:
  "read_measurement fs_le40a90 (path_join ''elev40'' ''Le40a90.bin'') ''Le40a90.bin'' =
     Inr (40, replicate 200 0)"
  using decode_zeros [of 200]
  by (simp add: read_measurement_def open_rb_def path_join_def fs_le40a90_def findall_0_le40a90 py_int_40)

lemma fs_le40a90_right:
  "fs_le40a90 (path_join ''elev40'' (replace_L_R ''Le40a90.bin'')) = Some (File (replicate 400 0))"
  by (simp add: path_join_def fs_le40a90_def)

theorem left_file_pairing_witness:
  "isfile fs_nopair (path_join ''elev-40'' ''L0e000a.dat'') \<and>
   startswith ''L0e000a.dat'' ''L'' \<and>
   read_measurement fs_nopair (path_join ''elev-40'' ''L0e000a.dat'') ''L0e000a.dat'' = Inr (0, []) \<and>
   replace_L_R ''L0e000a.dat'' = ''R0e000a.dat'' \<and>
   fs_nopair (path_join ''elev-40'' ''R0e000a.dat'') = None \<and>
   scan_file fs_nopair (- 40) ''elev-40'' ''L0e000a.dat'' [] = Inl FileNotFoundError \<and>
   (\<exists>e. scan fs_nopair = Inl e) \<and>
   isfile fs_le40a90 (path_join ''elev40'' ''Le40a90.bin'') \<and>
   read_measurement fs_le40a90 (path_join ''elev40'' ''Le40a90.bin'') ''Le40a90.bin'' =
     Inr (40, replicate 200 0) \<and>
   scan_file fs_le40a90 40 ''elev40'' ''Le40a90.bin'' [] =
     Inr [\<lparr>elevation = 40, azimuth = 40,
            samples = convert_int_to_float (window (replicate 200 0))\<rparr>,
          \<lparr>elevation = 40, azimuth = 40,
            samples = convert_int_to_float (window (replicate 200 0))\<rparr>]"
proof -
  have a: "isfile fs_nopair (path_join ''elev-40'' ''L0e000a.dat'')"
    "startswith ''L0e000a.dat'' ''L''"
    by (simp_all add: isfile_def path_join_elev fs_nopair_def fs_one_def startswith_def)
  have m: "fs_nopair (path_join ''elev-40'' (replace_L_R ''L0e000a.dat'')) = None"
    by (simp add: path_join_elev fs_nopair_def fs_one_def empty_folders_eq)
  have n: "- 40 \<in> set number_range \<and> ''elev-40'' = folder_of (- 40) \<and>
      (\<exists>names. fs_nopair ''elev-40'' = Some (Dir names) \<and> ''L0e000a.dat'' \<in> set names)"
    by (simp add: number_range_eq folder_of_simps fs_nopair_def fs_one_def)
  note l = left_file_pairing [OF a fs_nopair_read, of "- 40" "[]"]
  have b: "isfile fs_le40a90 (path_join ''elev40'' ''Le40a90.bin'')"
    "startswith ''Le40a90.bin'' ''L''"
    by (simp_all add: isfile_def path_join_def fs_le40a90_def startswith_def)
  note r = left_file_pairing [OF b fs_le40a90_read, of 40 "[]"]
  have s: "scan_file fs_le40a90 40 ''elev40'' ''Le40a90.bin'' [] =
      Inr ([] @ pair_of 40 40 (replicate 200 0) (replicate 200 0))"
    using b fs_le40a90_read fs_le40a90_right decode_zeros [of 200]
    by (simp add: scan_file_left read_measurement_def open_rb_def findall_0_le40a90 py_int_40)
  from l m n have "scan_file fs_nopair (- 40) ''elev-40'' ''L0e000a.dat'' [] = Inl FileNotFoundError"
    "\<exists>e. scan fs_nopair = Inl e"
    by blast+
  moreover from r s have "scan_file fs_le40a90 40 ''elev40'' ''Le40a90.bin'' [] =
     Inr [\<lparr>elevation = 40, azimuth = 40,
            samples = convert_int_to_float (window (replicate 200 0))\<rparr>,
          \<lparr>elevation = 40, azimuth = 40,
            samples = convert_int_to_float (window (replicate 200 0))\<rparr>]"
    by (simp add: pair_of_def)
  ultimately show ?thesis
    using a b m fs_nopair_read fs_le40a90_read by simp
qed

lemma run_scan_fails: "scan fs = Inl e \<Longrightarrow> run fs = \<lparr>fault = Some e, written = None\<rparr>"
  by (simp add: run_def)

lemma run_written:
  "written (run fs) = Some file \<Longrightarrow> \<exists>out. scan fs = Inr out \<and> snd (save_data_to_file out) = file"
  by (auto simp: run_def split: sum.splits prod.splits)

text \<open>
  C9: when the scan fails, the run ends with that exception and \<open>hrtf_128.bin\<close> is never
  opened; a missing folder, a regular file whose name has no match of the pattern or
  (the name being of ASCII characters) a match that is not an integer, and a
  left-channel file without its counterpart each make the scan fail. The file is
  written only by \<open>save_data_to_file\<close>, after a scan that completed.
\<close>

theorem traversal_failure_writes_nothing:
  assumes "i \<in> set number_range"
  shows "(\<forall>e. scan fs = Inl e \<longrightarrow> run fs = \<lparr>fault = Some e, written = None\<rparr>) \<and>
    (\<forall>file. written (run fs) = Some file \<longrightarrow>
       (\<exists>out. scan fs = Inr out \<and> snd (save_data_to_file out) = file)) \<and>
    (fs (folder_of i) = None \<longrightarrow> (\<exists>e. scan fs = Inl e) \<and> written (run fs) = None) \<and>
    (\<forall>names name. fs (folder_of i) = Some (Dir names) \<and> name \<in> set names \<and>
        isfile fs (path_join (folder_of i) name) \<and>
        (findall name = [] \<or>
         ascii_name name \<and> (\<exists>g. findall_0 name = Inr g \<and> py_int g = Inl ValueError)) \<longrightarrow>
        (\<exists>e. scan fs = Inl e) \<and> written (run fs) = None) \<and>
    (\<forall>names name. fs (folder_of i) = Some (Dir names) \<and> name \<in> set names \<and>
        isfile fs (path_join (folder_of i) name) \<and> startswith name ''L'' \<and>
        fs (path_join (folder_of i) (replace_L_R name)) = None \<longrightarrow>
        (\<exists>e. scan fs = Inl e) \<and> written (run fs) = None)"
proof -
  have w: "(\<exists>e. scan fs = Inl e) \<and> written (run fs) = None" if "\<exists>e. scan fs = Inl e"
    using that by (auto simp: run_scan_fails)
  have a: "(\<exists>e. scan fs = Inl e) \<and> written (run fs) = None" if "fs (folder_of i) = None"
    using that assms by (intro w scan_folder_fails [of i]) simp_all
  have b: "(\<exists>e. scan fs = Inl e) \<and> written (run fs) = None"
    if "fs (folder_of i) = Some (Dir names)" "name \<in> set names"
      "isfile fs (path_join (folder_of i) name)"
      "findall name = [] \<or>
       ascii_name name \<and> (\<exists>g. findall_0 name = Inr g \<and> py_int g = Inl ValueError)"
    for names name
  proof -
    from that(4) have n: "\<forall>g a. findall_0 name = Inr g \<longrightarrow> py_int g \<noteq> Inr a"
      by (auto simp: findall_0_def)
    have "\<exists>e. read_measurement fs (path_join (folder_of i) name) name = Inl e"
    proof (cases "read_measurement fs (path_join (folder_of i) name) name")
      case (Inl e)
      then show ?thesis by blast
    next
      case (Inr m)
      then obtain a enc where
        "read_measurement fs (path_join (folder_of i) name) name = Inr (a, enc)"
        by (cases m) simp
      then have "\<exists>g. findall_0 name = Inr g \<and> py_int g = Inr a"
        unfolding read_measurement_Inr by blast
      with n show ?thesis by blast
    qed
    then have "\<exists>e. scan_file fs i (folder_of i) name [] = Inl e"
      using that(3)
      by (cases "startswith name ''L''") (auto simp: scan_file_left scan_file_other)
    then obtain e where "scan_file fs i (folder_of i) name [] = Inl e" ..
    from scan_file_fails [OF assms that(1,2) this] show ?thesis
      by (rule w)
  qed
  have c: "(\<exists>e. scan fs = Inl e) \<and> written (run fs) = None"
    if "fs (folder_of i) = Some (Dir names)" "name \<in> set names"
      "isfile fs (path_join (folder_of i) name)" "startswith name ''L''"
      "fs (path_join (folder_of i) (replace_L_R name)) = None" for names name
  proof -
    have "\<exists>e. scan_file fs i (folder_of i) name [] = Inl e"
      using that(3,4,5)
      by (auto simp: scan_file_left read_measurement_missing split: sum.splits)
    then obtain e where "scan_file fs i (folder_of i) name [] = Inl e" ..
    from scan_file_fails [OF assms that(1,2) this] show ?thesis
      by (rule w)
  qed
  show ?thesis
    using a b c by (intro conjI allI impI) (blast intro: run_scan_fails dest: run_written)+
qed

theorem traversal_failure_writes_nothing_witness:
  "- 40 \<in> set number_range \<and>
   fs_nodir (folder_of (- 40)) = None \<and> written (run fs_nodir) = None \<and>
   fs_badname (folder_of (- 40)) = Some (Dir [''notes.txt'']) \<and>
   isfile fs_badname (path_join (folder_of (- 40)) ''notes.txt'') \<and>
   findall ''notes.txt'' = [] \<and> written (run fs_badname) = None \<and>
   fs_badint (folder_of (- 40)) = Some (Dir [''readme.txt'']) \<and>
   isfile fs_badint (path_join (folder_of (- 40)) ''readme.txt'') \<and>
   ascii_name ''readme.txt'' \<and> findall_0 ''readme.txt'' = Inr [] \<and>
   py_int [] = Inl ValueError \<and> written (run fs_badint) = None \<and>
   fs_nopair (folder_of (- 40)) = Some (Dir [''L0e000a.dat'']) \<and>
   isfile fs_nopair (path_join (folder_of (- 40)) ''L0e000a.dat'') \<and>
   startswith ''L0e000a.dat'' ''L'' \<and>
   fs_nopair (path_join (folder_of (- 40)) (replace_L_R ''L0e000a.dat'')) = None \<and>
   written (run fs_nopair) = None"
proof -
  have i: "- 40 \<in> set number_range"
    by (simp add: number_range_eq)
  have a: "fs_nodir (folder_of (- 40)) = None"
    by (simp add: fs_nodir_def empty_folders_eq folder_of_simps)
  have b: "fs_badname (folder_of (- 40)) = Some (Dir [''notes.txt''])"
    "''notes.txt'' \<in> set [''notes.txt'']"
    "isfile fs_badname (path_join (folder_of (- 40)) ''notes.txt'')"
    "findall ''notes.txt'' = []"
    by (simp_all add: fs_badname_def fs_one_def folder_of_simps isfile_def path_join_elev)
  have d: "fs_badint (folder_of (- 40)) = Some (Dir [''readme.txt''])"
    "''readme.txt'' \<in> set [''readme.txt'']"
    "isfile fs_badint (path_join (folder_of (- 40)) ''readme.txt'')"
    "ascii_name ''readme.txt''" "findall_0 ''readme.txt'' = Inr []"
    "py_int [] = Inl ValueError"
    by (simp_all add: fs_badint_def fs_one_def folder_of_simps isfile_def path_join_elev
        ascii_name_def findall_0_def py_int_def strip_def)
  have c: "fs_nopair (folder_of (- 40)) = Some (Dir [''L0e000a.dat''])"
    "''L0e000a.dat'' \<in> set [''L0e000a.dat'']"
    "isfile fs_nopair (path_join (folder_of (- 40)) ''L0e000a.dat'')"
    "startswith ''L0e000a.dat'' ''L''"
    "fs_nopair (path_join (folder_of (- 40)) (replace_L_R ''L0e000a.dat'')) = None"
    by (simp_all add: fs_nopair_def fs_one_def folder_of_simps isfile_def path_join_elev
        startswith_def empty_folders_eq)
  from traversal_failure_writes_nothing [OF i, of fs_nodir] a
  have "written (run fs_nodir) = None" by blast
  moreover from traversal_failure_writes_nothing [OF i, of fs_badname] b
  have "written (run fs_badname) = None" by (elim conjE allE [of _ "[''notes.txt'']"]
      allE [of _ "''notes.txt''"]) simp
  moreover from traversal_failure_writes_nothing [OF i, of fs_badint] d
  have "written (run fs_badint) = None" by (elim conjE allE [of _ "[''readme.txt'']"]
      allE [of _ "''readme.txt''"]) simp
  moreover from traversal_failure_writes_nothing [OF i, of fs_nopair] c
  have "written (run fs_nopair) = None" by (elim conjE allE [of _ "[''L0e000a.dat'']"]
      allE [of _ "''L0e000a.dat''"]) simp
  ultimately show ?thesis
    using i a b c d by simp
qed

subsection \<open>Short files\<close>

lemma findall_0_dat: "findall_0 ''L0e000a.dat'' = Inr ''000''" "findall_0 ''R0e000a.dat'' = Inr ''000''"
  by (simp_all add: findall_0_def)

lemma py_int_000: "py_int ''000'' = Inr 0"
  by (simp add: py_int_def strip_def is_space_def unsigned_def digit_of_def)

lemma length_window: "length (window enc) = min 128 (length enc - 40)"
  by (simp add: window_def sample_size_def)

lemma length_convert: "length (convert_int_to_float xs) = length xs"
  by (simp add: convert_int_to_float_def)

lemma fs_short_files:
  "isfile fs_short (path_join ''elev-40'' ''L0e000a.dat'')"
  "isfile fs_short (path_join ''elev-40'' ''R0e000a.dat'')"
  "startswith ''L0e000a.dat'' ''L''" "\<not> startswith ''R0e000a.dat'' ''L''"
  by (simp_all add: isfile_def path_join_elev fs_short_def fs_one_def startswith_def)

lemma fs_short_read:
  "read_measurement fs_short (path_join ''elev-40'' ''L0e000a.dat'') ''L0e000a.dat'' =
     Inr (0, replicate 100 0)"
  "read_measurement fs_short (path_join ''elev-40'' ''R0e000a.dat'') ''L0e000a.dat'' =
     Inr (0, replicate 100 0)"
  "read_measurement fs_short (path_join ''elev-40'' ''R0e000a.dat'') ''R0e000a.dat'' =
     Inr (0, replicate 100 0)"
  using decode_zeros [of 100]
  by (simp_all add: read_measurement_def open_rb_def path_join_elev fs_short_def fs_one_def
      findall_0_dat py_int_000)

lemma window_short: "convert_int_to_float (window (replicate 100 0)) = replicate 60 0"
  by (simp add: window_def sample_size_def convert_zeros)

lemma scan_file_fs_short:
  "scan_file fs_short (- 40) ''elev-40'' ''L0e000a.dat'' acc =
     Inr (acc @ [\<lparr>elevation = - 40, azimuth = 0, samples = replicate 60 0\<rparr>,
                 \<lparr>elevation = - 40, azimuth = 0, samples = replicate 60 0\<rparr>])"
  "scan_file fs_short (- 40) ''elev-40'' ''R0e000a.dat'' acc = Inr acc"
  using fs_short_files
  by (simp_all add: scan_file_left scan_file_other fs_short_read pair_of_def window_short)

lemma scan_fs_short:
  "scan fs_short =
     Inr [\<lparr>elevation = - 40, azimuth = 0, samples = replicate 60 0\<rparr>,
          \<lparr>elevation = - 40, azimuth = 0, samples = replicate 60 0\<rparr>]"
proof -
  have e: "\<forall>j \<in> set number_range. j \<noteq> - 40 \<longrightarrow> fs_short (folder_of j) = Some (Dir [])"
    by (simp add: number_range_eq folder_of_simps fs_short_def fs_one_def empty_folders_eq)
  have d: "fs_short ''elev-40'' = Some (Dir [''L0e000a.dat'', ''R0e000a.dat''])"
    by (simp add: fs_short_def fs_one_def)
  show ?thesis
    using d
    by (simp add: scan_first_folder [OF e] scan_folder_def listdir_def folder_of_simps
        scan_file_fs_short)
qed

text \<open>
  C5, as stated: every record of a completed run has 128 samples. It fails for a pair
  of files of 100 samples: the slice \<open>encoded_data[40:168]\<close> holds the 60 samples that
  are there, and the run completes with two records of 60 samples.
\<close>

theorem scan_short_counterexample:
  "scan fs_short =
     Inr [\<lparr>elevation = - 40, azimuth = 0, samples = replicate 60 0\<rparr>,
          \<lparr>elevation = - 40, azimuth = 0, samples = replicate 60 0\<rparr>] \<and>
   length (replicate 60 (0 :: rat)) \<noteq> 128"
  by (simp add: scan_fs_short)

text \<open>
  C6: for a left-channel file and its counterpart that were read and decoded, the step
  raises nothing and appends the two records; the record of a file with fewer than 168
  samples holds the samples from index 40 on, fewer than 128 of them.
\<close>

theorem short_file_window:
  assumes "isfile fs (path_join d name)" and "startswith name ''L''"
    and "read_measurement fs (path_join d name) name = Inr (a, enc)"
    and "read_measurement fs (path_join d (replace_L_R name)) name = Inr (a2, enc2)"
  shows "\<exists>l r. scan_file fs i d name acc = Inr (acc @ [l, r]) \<and>
    samples l = convert_int_to_float (window enc) \<and>
    samples r = convert_int_to_float (window enc2) \<and>
    (length enc < 168 \<longrightarrow>
       window enc = drop 40 enc \<and> length (samples l) = length enc - 40 \<and>
       length (samples l) < 128) \<and>
    (length enc2 < 168 \<longrightarrow>
       window enc2 = drop 40 enc2 \<and> length (samples r) = length enc2 - 40 \<and>
       length (samples r) < 128)"
proof -
  have w: "window xs = drop 40 xs \<and> length (convert_int_to_float (window xs)) = length xs - 40 \<and>
      length (convert_int_to_float (window xs)) < 128" if "length xs < 168" for xs
    using that by (simp add: length_convert window_def sample_size_def)
  have "scan_file fs i d name acc = Inr (acc @ pair_of i a enc enc2)"
    using assms by (simp add: scan_file_left)
  then show ?thesis
    using w [of enc] w [of enc2] by (auto simp: pair_of_def)
qed

theorem short_file_window_witness:
  "isfile fs_short (path_join ''elev-40'' ''L0e000a.dat'') \<and>
   startswith ''L0e000a.dat'' ''L'' \<and>
   read_measurement fs_short (path_join ''elev-40'' ''L0e000a.dat'') ''L0e000a.dat'' =
     Inr (0, replicate 100 0) \<and>
   read_measurement fs_short (path_join ''elev-40'' (replace_L_R ''L0e000a.dat'')) ''L0e000a.dat'' =
     Inr (0, replicate 100 0) \<and>
   length (replicate 100 (0 :: int)) < 168 \<and>
   (\<exists>l r. scan_file fs_short (- 40) ''elev-40'' ''L0e000a.dat'' [] = Inr ([] @ [l, r]) \<and>
      length (samples l) = 60 \<and> length (samples r) = 60)"
proof -
  have r: "read_measurement fs_short (path_join ''elev-40'' (replace_L_R ''L0e000a.dat''))
      ''L0e000a.dat'' = Inr (0, replicate 100 0)"
    using fs_short_read(2) by simp
  from short_file_window [OF fs_short_files(1,3) fs_short_read(1) r, of "- 40" "[]"]
  obtain l r where "scan_file fs_short (- 40) ''elev-40'' ''L0e000a.dat'' [] = Inr ([] @ [l, r])"
    "length (samples l) = 60" "length (samples r) = 60"
    by auto
  then have "\<exists>l r. scan_file fs_short (- 40) ''elev-40'' ''L0e000a.dat'' [] = Inr ([] @ [l, r]) \<and>
      length (samples l) = 60 \<and> length (samples r) = 60"
    by blast
  then show ?thesis
    using fs_short_files(1,3) fs_short_read(1) r by simp
qed

subsection \<open>The archive\<close>

lemma length_le_bytes4: "length (le_bytes4 n) = 4"
  by (simp add: le_bytes4_def)

lemma length_pack_f: "pack_f x = Inr b \<Longrightarrow> length b = 4"
  by (auto simp: pack_f_def Let_def length_le_bytes4 split: if_splits)

lemma length_tobytes: "length (tobytes xs) = 4 * length xs"
  by (induction xs) (simp_all add: tobytes_def length_le_bytes4)

lemma write_entries_None:
  "write_entries rs buf = (None, out) \<Longrightarrow>
     out = buf @ concat (map entry_bytes rs) \<and>
     (\<forall>r \<in> set rs. \<exists>eb ab. pack_f (elevation r) = Inr eb \<and> pack_f (azimuth r) = Inr ab)"
proof (induction rs arbitrary: buf)
  case Nil
  then show ?case by simp
next
  case (Cons r rs)
  from Cons.prems obtain ab eb where
    p: "pack_f (azimuth r) = Inr ab" "pack_f (elevation r) = Inr eb"
    and w: "write_entries rs (buf @ eb @ ab @ tobytes (samples r)) = (None, out)"
    by (auto split: sum.splits)
  from Cons.IH [OF w] p show ?case
    by (auto simp: entry_bytes_def)
qed

lemma length_entry_bytes:
  "pack_f (elevation r) = Inr eb \<Longrightarrow> pack_f (azimuth r) = Inr ab \<Longrightarrow>
   length (entry_bytes r) = 8 + 4 * length (samples r)"
  by (simp add: entry_bytes_def length_pack_f length_tobytes)

lemma scan_file_length:
  "scan_file fs i d name [] = Inr es \<Longrightarrow>
   length es = (if isfile fs (path_join d name) \<and> startswith name ''L'' then 2 else 0)"
proof (cases "isfile fs (path_join d name)")
  case False
  then show "scan_file fs i d name [] = Inr es \<Longrightarrow> ?thesis"
    by (simp add: scan_file_skip)
next
  case True
  then show "scan_file fs i d name [] = Inr es \<Longrightarrow> ?thesis"
    by (cases "startswith name ''L''")
      (auto simp: scan_file_other scan_file_left pair_of_def split: sum.splits prod.splits)
qed

lemma scan_files_length:
  "list_all2 (\<lambda>n es. scan_file fs i d n [] = Inr es) names ess \<Longrightarrow>
   length (concat ess) =
     2 * length (filter (\<lambda>name. isfile fs (path_join d name) \<and> startswith name ''L'') names)"
  by (induction names ess rule: list_all2_induct) (auto dest: scan_file_length)

lemma scan_folder_length:
  assumes "scan_folder fs i [] = Inr es"
  shows "length es =
     2 * length (case fs (folder_of i) of
                   Some (Dir names) \<Rightarrow>
                     map (Pair i)
                       (filter (\<lambda>name. isfile fs (path_join (folder_of i) name) \<and>
                                  startswith name ''L'') names)
                 | _ \<Rightarrow> [])"
proof -
  from scan_folder_Inr [OF assms] obtain names ess where n:
    "fs (folder_of i) = Some (Dir names)"
    "list_all2 (\<lambda>n es. scan_file fs i (folder_of i) n [] = Inr es) names ess"
    "es = concat ess"
    by blast
  from scan_files_length [OF n(2)] n(1,3) show ?thesis by simp
qed

lemma scan_folders_length:
  "list_all2 (\<lambda>i es. scan_folder fs i [] = Inr es) ns ess \<Longrightarrow>
   length (concat ess) =
     2 * length (concat (map (\<lambda>i. case fs (folder_of i) of
                         Some (Dir names) \<Rightarrow>
                           map (Pair i)
                             (filter (\<lambda>name. isfile fs (path_join (folder_of i) name) \<and>
                                        startswith name ''L'') names)
                       | _ \<Rightarrow> []) ns))"
proof (induction ns ess rule: list_all2_induct)
  case Nil
  then show ?case by simp
next
  case (Cons i es ns ess)
  from scan_folder_length [OF Cons.hyps(1)] Cons.IH show ?case
    by simp
qed

lemma scan_length:
  assumes "scan fs = Inr out"
  shows "length out = 2 * length (left_files fs)"
proof -
  from assms obtain ess where
    "list_all2 (\<lambda>i es. scan_folder fs i [] = Inr es) number_range ess" "out = concat ess"
    unfolding scan_def by (blast dest: scan_folders_Inr)
  then show ?thesis
    unfolding left_files_def by (simp only: scan_folders_length)
qed

lemma pow2_numeral_less: "\<bar>x\<bar> < 2 ^ 24 \<Longrightarrow> (of_int \<bar>x\<bar> :: rat) < pow2 128 \<and> (of_int \<bar>x\<bar> :: rat) < pow2 1024"
proof -
  assume "\<bar>x\<bar> < 2 ^ 24"
  then have "(of_int \<bar>x\<bar> :: rat) < of_int (2 ^ 24)"
    by (simp only: of_int_less_iff)
  also have "(of_int (2 ^ 24) :: rat) = pow2 24"
    by (simp add: pow2_def)
  finally have "(of_int \<bar>x\<bar> :: rat) < pow2 24" .
  moreover have "pow2 24 \<le> pow2 128" "pow2 24 \<le> pow2 1024"
    by (simp_all add: pow2_mono)
  ultimately show ?thesis by simp
qed

lemma pack_f_small:
  assumes "\<bar>x\<bar> < 2 ^ 24"
  shows "pack_f x = Inr (le_bytes4 (f32_bits (of_int x)))"
proof -
  have "\<bar>x\<bar> < 2 ^ 53"
    using assms by simp
  then have d: "f64_round (of_int x) = of_int x"
    unfolding f64_round_def by (intro fl_round_of_int) simp_all
  have f: "f32_round (of_int x) = of_int x"
    unfolding f32_round_def using assms by (intro fl_round_of_int) simp_all
  have "\<not> pow2 1024 \<le> \<bar>of_int x :: rat\<bar>" "\<not> pow2 128 \<le> \<bar>of_int x :: rat\<bar>"
    using pow2_numeral_less [OF assms] by simp_all
  then show ?thesis
    by (simp add: pack_f_def d f)
qed

lemma pack_f_0: "pack_f 0 = Inr [0, 0, 0, 0]"
  using pack_f_small [of 0] by (simp add: f32_bits_def le_bytes4_def)

lemma ilog2_40: "ilog2 40 = 5"
  by (simp add: ilog2_def bit_length.simps)

lemma pack_f_40: "pack_f 40 = Inr [0x00, 0x00, 0x20, 0x42]"
  using pack_f_small [of 40]
  by (simp add: f32_bits_def ilog2_40 pow2_def le_bytes4_def Let_def)

lemma pack_f_minus_40: "pack_f (- 40) = Inr [0x00, 0x00, 0x20, 0xC2]"
  using pack_f_small [of "- 40"]
  by (simp add: f32_bits_def ilog2_40 pow2_def le_bytes4_def Let_def)

lemma replicate_4: "replicate (4 + m) x = x # x # x # x # replicate m x"
  by (simp add: eval_nat_numeral)

lemma tobytes_zeros: "tobytes (replicate n 0) = replicate (4 * n) 0"
  by (induction n) (simp_all add: tobytes_def f32_bits_def le_bytes4_def replicate_4)

lemma length_concat_const:
  "(\<forall>x \<in> set xs. length (f x) = c) \<Longrightarrow> length (concat (map f xs)) = c * length xs"
  by (induction xs) simp_all

lemma scan_entry_samples_le:
  assumes "scan fs = Inr out" and "r \<in> set out"
  shows "length (samples r) \<le> 128"
proof -
  from scan_entry_origin [OF assms] obtain i name es where
    es: "scan_file fs i (folder_of i) name [] = Inr es" "r \<in> set es"
    by blast
  from scan_file_Inr_cases [OF es(1)] es(2) show ?thesis
    by (auto simp: pair_of_def length_convert length_window)
qed

lemma run_fs_short:
  "run fs_short =
     \<lparr>fault = None,
      written = Some ([0x00, 0x00, 0x20, 0xC2, 0x00, 0x00, 0x00, 0x00] @ replicate 240 0 @
                      [0x00, 0x00, 0x20, 0xC2, 0x00, 0x00, 0x00, 0x00] @ replicate 240 0)\<rparr>"
  using tobytes_zeros [of 60]
  by (simp add: run_def scan_fs_short save_data_to_file_def pack_f_0 pack_f_minus_40)

text \<open>
  C8, as stated: the file is a whole number of 520-byte records. It fails for the pair
  of files of 100 samples: the run completes and writes two records of
  \<open>8 + 4 * 60 = 248\<close> bytes, 496 bytes in all.
\<close>

theorem archive_size_counterexample:
  "run fs_short =
     \<lparr>fault = None,
      written = Some ([0x00, 0x00, 0x20, 0xC2, 0x00, 0x00, 0x00, 0x00] @ replicate 240 0 @
                      [0x00, 0x00, 0x20, 0xC2, 0x00, 0x00, 0x00, 0x00] @ replicate 240 0)\<rparr> \<and>
   map_option length (written (run fs_short)) = Some 496 \<and>
   496 \<noteq> 520 * length (projr (scan fs_short))"
  by (simp add: run_fs_short scan_fs_short)

text \<open>
  C8, amended: the file of a completed run is the concatenation of one record per
  entry, with nothing before, between or after; a record is the 4 bytes of the
  elevation, the 4 bytes of the azimuth and 4 bytes per sample, at most 520 bytes; the
  number of records is twice the number of left-channel files; and when every record
  has 128 samples the size is 520 times the number of records.
\<close>

theorem archive_layout:
  assumes "fault (run fs) = None"
  shows "\<exists>out. scan fs = Inr out \<and>
     length out = 2 * length (left_files fs) \<and>
     written (run fs) = Some (concat (map entry_bytes out)) \<and>
     (\<forall>r \<in> set out. \<exists>eb ab. pack_f (elevation r) = Inr eb \<and> pack_f (azimuth r) = Inr ab \<and>
         length eb = 4 \<and> length ab = 4 \<and>
         entry_bytes r = eb @ ab @ tobytes (samples r) \<and>
         length (tobytes (samples r)) = 4 * length (samples r) \<and>
         length (entry_bytes r) = 8 + 4 * length (samples r) \<and>
         length (entry_bytes r) \<le> 520) \<and>
     ((\<forall>r \<in> set out. length (samples r) = 128) \<longrightarrow>
        length (concat (map entry_bytes out)) = 520 * length out)"
proof -
  from assms obtain out where out: "scan fs = Inr out"
    by (cases "scan fs") (simp_all add: run_def)
  with assms obtain buf where w: "write_entries out [] = (None, buf)"
    and f: "written (run fs) = Some buf"
    by (auto simp: run_def save_data_to_file_def split: prod.splits)
  from write_entries_None [OF w] have b: "buf = concat (map entry_bytes out)"
    and p: "\<forall>r \<in> set out. \<exists>eb ab. pack_f (elevation r) = Inr eb \<and> pack_f (azimuth r) = Inr ab"
    by simp_all
  have e: "\<exists>eb ab. pack_f (elevation r) = Inr eb \<and> pack_f (azimuth r) = Inr ab \<and>
         length eb = 4 \<and> length ab = 4 \<and>
         entry_bytes r = eb @ ab @ tobytes (samples r) \<and>
         length (tobytes (samples r)) = 4 * length (samples r) \<and>
         length (entry_bytes r) = 8 + 4 * length (samples r) \<and>
         length (entry_bytes r) \<le> 520" if "r \<in> set out" for r
  proof -
    from p that obtain eb ab where
      q: "pack_f (elevation r) = Inr eb" "pack_f (azimuth r) = Inr ab"
      by blast
    have "length (samples r) \<le> 128"
      using out that by (rule scan_entry_samples_le)
    with q show ?thesis
      by (simp add: entry_bytes_def length_pack_f length_tobytes)
  qed
  have s: "length (concat (map entry_bytes out)) = 520 * length out"
    if "\<forall>r \<in> set out. length (samples r) = 128"
  proof (rule length_concat_const, rule ballI)
    fix r
    assume "r \<in> set out"
    with e [of r] that show "length (entry_bytes r) = 520" by auto
  qed
  from out scan_length [OF out] f b e s show ?thesis
    by blast
qed

lemma run_fs_le40a90: "fault (run fs_le40a90) = None"
  by (simp add: run_def scan_fs_le40a90 save_data_to_file_def pack_f_40)

theorem archive_layout_witness:
  "fault (run fs_le40a90) = None \<and>
   scan fs_le40a90 =
     Inr [\<lparr>elevation = 40, azimuth = 40, samples = replicate 128 0\<rparr>,
          \<lparr>elevation = 40, azimuth = 40, samples = replicate 128 0\<rparr>] \<and>
   length (left_files fs_le40a90) = 1 \<and>
   map_option length (written (run fs_le40a90)) = Some 1040"
proof -
  from archive_layout [OF run_fs_le40a90] scan_fs_le40a90
  have "2 = 2 * length (left_files fs_le40a90)"
    and "written (run fs_le40a90) =
      Some (concat (map entry_bytes
        [\<lparr>elevation = 40, azimuth = 40, samples = replicate 128 0\<rparr>,
         \<lparr>elevation = 40, azimuth = 40, samples = replicate 128 0\<rparr>]))"
    and "length (concat (map entry_bytes
        [\<lparr>elevation = 40, azimuth = 40, samples = replicate 128 0\<rparr>,
         \<lparr>elevation = 40, azimuth = 40, samples = replicate 128 0\<rparr>])) = 520 * 2"
    by auto
  with run_fs_le40a90 scan_fs_le40a90 show ?thesis
    by simp
qed

subsection \<open>Every record and its file\<close>

lemma scan_file_not_left:
  "scan_file fs i d name [] = Inr es \<Longrightarrow>
   \<not> (isfile fs (path_join d name) \<and> startswith name ''L'') \<Longrightarrow> es = []"
  by (drule scan_file_length) auto

lemma scan_files_entries:
  "list_all2 (\<lambda>n es. scan_file fs i d n [] = Inr es) names ess \<Longrightarrow>
   concat ess =
     concat (map (\<lambda>n. projr (scan_file fs i d n []))
       (filter (\<lambda>name. isfile fs (path_join d name) \<and> startswith name ''L'') names))"
proof (induction names ess rule: list_all2_induct)
  case Nil
  then show ?case by simp
next
  case (Cons n names es ess)
  show ?case
  proof (cases "isfile fs (path_join d n) \<and> startswith n ''L''")
    case True
    with Cons show ?thesis by simp
  next
    case False
    with Cons.hyps(1) have "es = []" by (rule scan_file_not_left)
    with False Cons show ?thesis by simp
  qed
qed

lemma scan_folder_entries:
  assumes "scan_folder fs i [] = Inr es"
  shows "es =
     concat (map (\<lambda>(i, name). projr (scan_file fs i (folder_of i) name []))
       (case fs (folder_of i) of
          Some (Dir names) \<Rightarrow>
            map (Pair i)
              (filter (\<lambda>name. isfile fs (path_join (folder_of i) name) \<and>
                         startswith name ''L'') names)
        | _ \<Rightarrow> []))"
proof -
  from scan_folder_Inr [OF assms] obtain names ess where n:
    "fs (folder_of i) = Some (Dir names)"
    "list_all2 (\<lambda>n es. scan_file fs i (folder_of i) n [] = Inr es) names ess"
    "es = concat ess"
    by blast
  from scan_files_entries [OF n(2)] n(1,3) show ?thesis
    by (simp add: comp_def)
qed

lemma scan_folders_entries:
  "list_all2 (\<lambda>i es. scan_folder fs i [] = Inr es) ns ess \<Longrightarrow>
   concat ess =
     concat (map (\<lambda>(i, name). projr (scan_file fs i (folder_of i) name []))
       (concat (map (\<lambda>i. case fs (folder_of i) of
                         Some (Dir names) \<Rightarrow>
                           map (Pair i)
                             (filter (\<lambda>name. isfile fs (path_join (folder_of i) name) \<and>
                                        startswith name ''L'') names)
                       | _ \<Rightarrow> []) ns)))"
proof (induction ns ess rule: list_all2_induct)
  case Nil
  then show ?case by simp
next
  case (Cons i ns es ess)
  from scan_folder_entries [OF Cons.hyps(1)] Cons.IH show ?case
    by simp
qed

lemma scan_entries:
  assumes "scan fs = Inr out"
  shows "out =
    concat (map (\<lambda>(i, name). projr (scan_file fs i (folder_of i) name [])) (left_files fs))"
proof -
  from assms obtain ess where
    "list_all2 (\<lambda>i es. scan_folder fs i [] = Inr es) number_range ess" "out = concat ess"
    unfolding scan_def by (blast dest: scan_folders_Inr)
  then show ?thesis
    unfolding left_files_def by (simp only: scan_folders_entries)
qed

lemma left_files_member:
  assumes "(i, name) \<in> set (left_files fs)"
  shows "i \<in> set number_range \<and> (\<exists>names. fs (folder_of i) = Some (Dir names) \<and>
           name \<in> set names) \<and> isfile fs (path_join (folder_of i) name) \<and>
         startswith name ''L''"
  using assms unfolding left_files_def
  by (auto split: option.splits node.splits) metis

lemma scan_left_file:
  assumes "scan fs = Inr out" and "(i, name) \<in> set (left_files fs)"
  shows "\<exists>a enc enc2.
      read_measurement fs (path_join (folder_of i) name) name = Inr (a, enc) \<and>
      read_measurement fs (path_join (folder_of i) (replace_L_R name)) name = Inr (a, enc2) \<and>
      scan_file fs i (folder_of i) name [] = Inr (pair_of i a enc enc2)"
proof -
  from left_files_member [OF assms(2)] obtain names where m:
    "i \<in> set number_range" "fs (folder_of i) = Some (Dir names)" "name \<in> set names"
    "isfile fs (path_join (folder_of i) name)" "startswith name ''L''"
    by blast
  from scan_visits [OF assms(1) m(1)] m(2,3) obtain es where
    es: "scan_file fs i (folder_of i) name [] = Inr es"
    by auto
  from scan_file_Inr_cases [OF es] scan_file_length [OF es] m(4,5) es show ?thesis
    by auto
qed

lemma concat_pairs_nth:
  assumes "\<forall>x \<in> set xs. length (f x) = 2" and "k < length xs"
  shows "concat (map f xs) ! (2 * k) = f (xs ! k) ! 0 \<and>
         concat (map f xs) ! (2 * k + 1) = f (xs ! k) ! 1"
  using assms
proof (induction xs arbitrary: k)
  case Nil
  then show ?case by simp
next
  case (Cons x xs)
  then obtain a b where f: "f x = [a, b]"
    by (cases "f x"; cases "tl (f x)") auto
  show ?case
  proof (cases k)
    case 0
    then show ?thesis by (simp add: f)
  next
    case (Suc j)
    with Cons.prems have "j < length xs" "\<forall>x \<in> set xs. length (f x) = 2" by simp_all
    from Cons.IH [OF this(2,1)] Suc show ?thesis
      by (simp add: f)
  qed
qed


lemma decode_length: "decode raw = Inr enc \<Longrightarrow> length enc = length raw div 2"
  using length_samples_of [of raw] by (auto simp: decode_eq split: if_splits)

text \<open>
  C5, amended: every record of a completed scan has at most 128 samples. The records
  at the positions \<open>2 * k\<close> and \<open>2 * k + 1\<close> are those of the \<open>k\<close>-th left-channel
  file and of its counterpart: each is the window of the samples decoded from its own
  file and has \<open>min 128 (n - 40)\<close> samples, where \<open>n\<close> is the number of samples of
  that file, so it has 128 exactly when that file has at least 168 samples.
\<close>

theorem scan_entry_length:
  assumes "scan fs = Inr out" and "k < length (left_files fs)"
    and "left_files fs ! k = (i, name)"
  shows "length out = 2 * length (left_files fs) \<and>
    (\<forall>r \<in> set out. length (samples r) \<le> 128) \<and>
    (\<exists>rawl rawr encl encr.
       fs (path_join (folder_of i) name) = Some (File rawl) \<and> decode rawl = Inr encl \<and>
       fs (path_join (folder_of i) (replace_L_R name)) = Some (File rawr) \<and>
       decode rawr = Inr encr \<and>
       length encl = length rawl div 2 \<and> length encr = length rawr div 2 \<and>
       samples (out ! (2 * k)) = convert_int_to_float (window encl) \<and>
       samples (out ! (2 * k + 1)) = convert_int_to_float (window encr) \<and>
       length (samples (out ! (2 * k))) = min 128 (length encl - 40) \<and>
       length (samples (out ! (2 * k + 1))) = min 128 (length encr - 40) \<and>
       (length (samples (out ! (2 * k))) = 128 \<longleftrightarrow> 168 \<le> length encl) \<and>
       (length (samples (out ! (2 * k + 1))) = 128 \<longleftrightarrow> 168 \<le> length encr))"
proof -
  let ?g = "\<lambda>(i, name). projr (scan_file fs i (folder_of i) name [])"
  have out: "out = concat (map ?g (left_files fs))"
    using assms(1) by (rule scan_entries)
  have two: "\<forall>x \<in> set (left_files fs). length (?g x) = 2"
  proof
    fix x
    assume x: "x \<in> set (left_files fs)"
    obtain j n where "x = (j, n)" by (cases x)
    with scan_left_file [OF assms(1), of j n] x show "length (?g x) = 2"
      by (auto simp: pair_of_def)
  qed
  have "(i, name) \<in> set (left_files fs)"
    using assms(2,3) by (metis nth_mem)
  from scan_left_file [OF assms(1) this] obtain a encl encr where
    l: "read_measurement fs (path_join (folder_of i) name) name = Inr (a, encl)"
    and r: "read_measurement fs (path_join (folder_of i) (replace_L_R name)) name = Inr (a, encr)"
    and s: "scan_file fs i (folder_of i) name [] = Inr (pair_of i a encl encr)"
    by blast
  from concat_pairs_nth [OF two assms(2)] assms(3) s
  have n: "samples (out ! (2 * k)) = convert_int_to_float (window encl)"
    "samples (out ! (2 * k + 1)) = convert_int_to_float (window encr)"
    by (simp_all add: out pair_of_def)
  from l obtain rawl where rl: "fs (path_join (folder_of i) name) = Some (File rawl)"
    "decode rawl = Inr encl"
    by (auto simp: read_measurement_Inr)
  from r obtain rawr where rr: "fs (path_join (folder_of i) (replace_L_R name)) = Some (File rawr)"
    "decode rawr = Inr encr"
    by (auto simp: read_measurement_Inr)
  have len: "length (samples (out ! (2 * k))) = min 128 (length encl - 40)"
    "length (samples (out ! (2 * k + 1))) = min 128 (length encr - 40)"
    unfolding n by (simp_all add: length_convert length_window)
  then have iff: "length (samples (out ! (2 * k))) = 128 \<longleftrightarrow> 168 \<le> length encl"
    "length (samples (out ! (2 * k + 1))) = 128 \<longleftrightarrow> 168 \<le> length encr"
    by auto
  have le: "\<forall>r \<in> set out. length (samples r) \<le> 128"
    using assms(1) by (blast intro: scan_entry_samples_le)
  from scan_length [OF assms(1)] le rl rr decode_length [OF rl(2)] decode_length [OF rr(2)]
    n len iff
  show ?thesis by blast
qed


lemma fs_mixed_files:
  "fs_mixed (path_join (folder_of (- 40)) ''L0e000a.dat'') = Some (File (replicate 400 0))"
  "fs_mixed (path_join (folder_of (- 40)) (replace_L_R ''L0e000a.dat'')) =
     Some (File (replicate 200 0))"
  "fs_mixed (path_join (folder_of (- 40)) ''R0e000a.dat'') = Some (File (replicate 200 0))"
  by (simp_all add: folder_of_simps path_join_elev fs_mixed_def fs_one_def)

lemma left_files_fs_mixed: "left_files fs_mixed = [(- 40, ''L0e000a.dat'')]"
proof -
  have e: "fs_mixed (folder_of j) = Some (Dir [])"
    if "j \<in> {- 30, - 20, - 10, 0, 10, 20, 30, 40, 50, 60, 70, 80, 90}" for j
    using that by (auto simp: folder_of_simps fs_mixed_def fs_one_def empty_folders_eq)
  have d: "fs_mixed (folder_of (- 40)) = Some (Dir [''L0e000a.dat'', ''R0e000a.dat''])"
    by (simp add: folder_of_simps fs_mixed_def fs_one_def)
  have f: "isfile fs_mixed (path_join (folder_of (- 40)) ''L0e000a.dat'')"
    "startswith ''L0e000a.dat'' ''L''" "\<not> startswith ''R0e000a.dat'' ''L''"
    by (simp_all add: isfile_def fs_mixed_files startswith_def)
  show ?thesis
    by (simp add: left_files_def number_range_eq e d f)
qed

lemma scan_fs_mixed:
  "scan fs_mixed =
     Inr [\<lparr>elevation = - 40, azimuth = 0, samples = replicate 128 0\<rparr>,
          \<lparr>elevation = - 40, azimuth = 0, samples = replicate 60 0\<rparr>]"
proof -
  have e: "\<forall>j \<in> set number_range. j \<noteq> - 40 \<longrightarrow> fs_mixed (folder_of j) = Some (Dir [])"
    by (simp add: number_range_eq folder_of_simps fs_mixed_def fs_one_def empty_folders_eq)
  have d: "fs_mixed ''elev-40'' = Some (Dir [''L0e000a.dat'', ''R0e000a.dat''])"
    by (simp add: fs_mixed_def fs_one_def)
  have f: "isfile fs_mixed (path_join ''elev-40'' ''L0e000a.dat'')"
    "isfile fs_mixed (path_join ''elev-40'' ''R0e000a.dat'')"
    "startswith ''L0e000a.dat'' ''L''" "\<not> startswith ''R0e000a.dat'' ''L''"
    by (simp_all add: isfile_def path_join_elev fs_mixed_def fs_one_def startswith_def)
  have r: "read_measurement fs_mixed (path_join ''elev-40'' ''L0e000a.dat'') ''L0e000a.dat'' =
      Inr (0, replicate 200 0)"
    "read_measurement fs_mixed (path_join ''elev-40'' ''R0e000a.dat'') ''L0e000a.dat'' =
      Inr (0, replicate 100 0)"
    "read_measurement fs_mixed (path_join ''elev-40'' ''R0e000a.dat'') ''R0e000a.dat'' =
      Inr (0, replicate 100 0)"
    using decode_zeros [of 100] decode_zeros [of 200]
    by (simp_all add: read_measurement_def open_rb_def path_join_elev fs_mixed_def fs_one_def
        findall_0_dat py_int_000)
  have w: "convert_int_to_float (window (replicate 200 0)) = replicate 128 0"
    by (simp add: window_def sample_size_def convert_zeros)
  have s: "scan_file fs_mixed (- 40) ''elev-40'' ''L0e000a.dat'' acc =
      Inr (acc @ [\<lparr>elevation = - 40, azimuth = 0, samples = replicate 128 0\<rparr>,
                  \<lparr>elevation = - 40, azimuth = 0, samples = replicate 60 0\<rparr>])"
    "scan_file fs_mixed (- 40) ''elev-40'' ''R0e000a.dat'' acc = Inr acc" for acc
    using f by (simp_all add: scan_file_left scan_file_other r pair_of_def w window_short)
  show ?thesis
    using d
    by (simp add: scan_first_folder [OF e] scan_folder_def listdir_def folder_of_simps s)
qed

theorem scan_entry_length_witness:
  "scan fs_mixed =
     Inr [\<lparr>elevation = - 40, azimuth = 0, samples = replicate 128 0\<rparr>,
          \<lparr>elevation = - 40, azimuth = 0, samples = replicate 60 0\<rparr>] \<and>
   0 < length (left_files fs_mixed) \<and> left_files fs_mixed ! 0 = (- 40, ''L0e000a.dat'') \<and>
   fs_mixed (path_join (folder_of (- 40)) ''L0e000a.dat'') = Some (File (replicate 400 0)) \<and>
   fs_mixed (path_join (folder_of (- 40)) (replace_L_R ''L0e000a.dat'')) =
     Some (File (replicate 200 0)) \<and>
   (\<exists>encl encr. decode (replicate 400 0) = Inr encl \<and> decode (replicate 200 0) = Inr encr \<and>
      length encl = 200 \<and> length encr = 100 \<and>
      length (samples ([\<lparr>elevation = - 40, azimuth = 0, samples = replicate 128 0\<rparr>,
          \<lparr>elevation = - 40, azimuth = 0, samples = replicate 60 0\<rparr>] ! (2 * 0))) =
        min 128 (length encl - 40) \<and>
      length (samples ([\<lparr>elevation = - 40, azimuth = 0, samples = replicate 128 0\<rparr>,
          \<lparr>elevation = - 40, azimuth = 0, samples = replicate 60 0\<rparr>] ! (2 * 0 + 1))) =
        min 128 (length encr - 40))"
proof -
  have k: "0 < length (left_files fs_mixed)" "left_files fs_mixed ! 0 = (- 40, ''L0e000a.dat'')"
    by (simp_all add: left_files_fs_mixed)
  from scan_entry_length [OF scan_fs_mixed k] fs_mixed_files(1,2)
  have "\<exists>encl encr. decode (replicate 400 0) = Inr encl \<and> decode (replicate 200 0) = Inr encr \<and>
      length encl = 200 \<and> length encr = 100 \<and>
      length (samples ([\<lparr>elevation = - 40, azimuth = 0, samples = replicate 128 0\<rparr>,
          \<lparr>elevation = - 40, azimuth = 0, samples = replicate 60 0\<rparr>] ! (2 * 0))) =
        min 128 (length encl - 40) \<and>
      length (samples ([\<lparr>elevation = - 40, azimuth = 0, samples = replicate 128 0\<rparr>,
          \<lparr>elevation = - 40, azimuth = 0, samples = replicate 60 0\<rparr>] ! (2 * 0 + 1))) =
        min 128 (length encr - 40)"
    by auto
  with scan_fs_mixed k fs_mixed_files(1,2) show ?thesis
    by blast
qed

end
